theory Spec2Isabelle
  imports Main "HOL-Library.Sublist" "HOL-Library.List_Lexorder" "HOL-Library.Multiset"
begin

section \<open>JavaScript strings\<close>

text \<open>
  A JavaScript string is a sequence of UTF-16 code units; a code unit is modelled as a
  natural number and a string as a list of them. \<open>str\<close> embeds an ASCII literal.
\<close>

type_synonym jchar = nat
type_synonym jstring = "nat list"

definition str :: "string \<Rightarrow> jstring" where
  "str s = map of_char s"

text \<open>The character classes \<^verbatim>\<open>\d\<close>, \<^verbatim>\<open>\w\<close>, \<^verbatim>\<open>\s\<close> and the line terminators of ECMAScript.\<close>

definition is_digit :: "jchar \<Rightarrow> bool" where
  "is_digit c = (48 \<le> c \<and> c \<le> 57)"

definition is_upper :: "jchar \<Rightarrow> bool" where
  "is_upper c = (65 \<le> c \<and> c \<le> 90)"

definition is_lower :: "jchar \<Rightarrow> bool" where
  "is_lower c = (97 \<le> c \<and> c \<le> 122)"

definition is_word :: "jchar \<Rightarrow> bool" where
  "is_word c = (is_digit c \<or> is_upper c \<or> is_lower c \<or> c = 95)"

definition is_lt :: "jchar \<Rightarrow> bool" where
  "is_lt c = (c = 10 \<or> c = 13 \<or> c = 8232 \<or> c = 8233)"

definition is_space :: "jchar \<Rightarrow> bool" where
  "is_space c = (c = 9 \<or> c = 11 \<or> c = 12 \<or> c = 32 \<or> c = 160 \<or> c = 5760
     \<or> (8192 \<le> c \<and> c \<le> 8202) \<or> c = 8239 \<or> c = 8287 \<or> c = 12288 \<or> c = 65279
     \<or> is_lt c)"

text \<open>
  Canonicalisation of the \<^verbatim>\<open>i\<close> flag. Every pattern of the program is ASCII, and
  a code unit from 128 on never canonicalises to an ASCII one, so upper-casing the ASCII
  letters decides every comparison the program makes.
\<close>

definition upper_ascii :: "jchar \<Rightarrow> jchar" where
  "upper_ascii c = (if is_lower c then c - 32 else c)"

definition lower_ascii :: "jchar \<Rightarrow> jchar" where
  "lower_ascii c = (if is_upper c then c + 32 else c)"

text \<open>
  \<^verbatim>\<open>String.prototype.toLowerCase\<close>. Its result is only ever compared with ASCII
  names, so of the code units outside ASCII the two whose lower case contains an ASCII
  letter are written out (KELVIN SIGN and LATIN CAPITAL LETTER I WITH DOT ABOVE); the
  others keep a value outside ASCII, whatever it is, and are left as they are.
\<close>

definition toLowerCase :: "jstring \<Rightarrow> jstring" where
  "toLowerCase s = concat (map (\<lambda>c. if c = 8490 then [107] else if c = 304 then [105, 775]
                                     else [lower_ascii c]) s)"

definition trim :: "jstring \<Rightarrow> jstring" where
  "trim s = rev (dropWhile is_space (rev (dropWhile is_space s)))"

definition startsWith :: "jstring \<Rightarrow> jstring \<Rightarrow> bool" where
  "startsWith s p = (take (length p) s = p)"

text \<open>\<^verbatim>\<open>xs.join(sep)\<close>.\<close>

fun join :: "jstring \<Rightarrow> jstring list \<Rightarrow> jstring" where
  "join sep [] = []"
| "join sep [x] = x"
| "join sep (x # y # ys) = x @ sep @ join sep (y # ys)"

text \<open>
  \<^verbatim>\<open>s.split(sep)\<close> for a non-empty string separator: the pieces between the
  non-overlapping occurrences of \<open>sep\<close>, found left to right. The counter skips the
  code units of an occurrence that has been recognised.
\<close>

fun split_lit :: "jstring \<Rightarrow> nat \<Rightarrow> jstring \<Rightarrow> jstring \<Rightarrow> jstring list" where
  "split_lit sep k acc [] = [acc]"
| "split_lit sep (Suc k) acc (c # t) = split_lit sep k acc t"
| "split_lit sep 0 acc (c # t) =
     (if take (length sep) (c # t) = sep
      then acc # split_lit sep (length sep - 1) [] t
      else split_lit sep 0 (acc @ [c]) t)"

definition split_str :: "jstring \<Rightarrow> jstring \<Rightarrow> jstring list" where
  "split_str sep s = split_lit sep 0 [] s"

section \<open>Regular expressions\<close>

text \<open>
  The regular expressions of the program are values of \<open>rx\<close>, run by a backtracking
  matcher that follows the ECMAScript semantics: \<open>ms r s\<close> lists the states in which a
  match of \<open>r\<close> started in state \<open>s\<close> can end, in the order in which the backtracking
  matcher would try them, so that the head of the list is the match that JavaScript
  reports. A state holds the code unit before the current position (for the anchors),
  the rest of the input and the captures made so far.

  The program has no capture group under a quantifier, no back-reference and no
  look-around, so none of that is modelled.
\<close>

record mstate =
  prev :: "jchar option"
  rest :: jstring
  caps :: "(nat \<times> jstring) list"

datatype rx =
    Cls "jchar \<Rightarrow> bool"
  | Eps
  | Seq rx rx
  | Alt rx rx
  | Rep nat "nat option" bool rx
  | Grp nat rx
  | Bol bool
  | Eol bool

text \<open>
  \<open>Rep mn mx greedy r\<close> is \<^verbatim>\<open>r{mn,mx}\<close> (\<open>mx = None\<close> for no upper bound),
  lazy when \<open>greedy\<close> is false. As in ECMAScript's RepeatMatcher an iteration that is no
  longer required and consumes nothing is rejected. The first argument of \<open>rep\<close> bounds
  the number of iterations: \<open>mn\<close> required ones, then one at least per remaining code
  unit.
\<close>

fun rep :: "nat \<Rightarrow> nat \<Rightarrow> nat option \<Rightarrow> bool \<Rightarrow> (mstate \<Rightarrow> mstate list) \<Rightarrow> mstate \<Rightarrow> mstate list" where
  "rep 0 mn mx greedy f s = [s]"
| "rep (Suc n) mn mx greedy f s =
     (if mx = Some 0 then [s]
      else let iter = concat (map (\<lambda>s'. if mn = 0 \<and> length (rest s') = length (rest s) then []
                                         else rep n (mn - 1) (map_option (\<lambda>m. m - 1) mx) greedy f s')
                                  (f s))
           in if mn \<noteq> 0 then iter else if greedy then iter @ [s] else s # iter)"

primrec ms :: "rx \<Rightarrow> mstate \<Rightarrow> mstate list" where
  "ms (Cls P) s = (case rest s of [] \<Rightarrow> []
                   | c # t \<Rightarrow> if P c then [s\<lparr>prev := Some c, rest := t\<rparr>] else [])"
| "ms Eps s = [s]"
| "ms (Seq a b) s = concat (map (ms b) (ms a s))"
| "ms (Alt a b) s = ms a s @ ms b s"
| "ms (Rep mn mx greedy r) s = rep (mn + length (rest s)) mn mx greedy (ms r) s"
| "ms (Grp i r) s =
     map (\<lambda>s'. s'\<lparr>caps := (i, take (length (rest s) - length (rest s')) (rest s)) # caps s'\<rparr>)
         (ms r s)"
| "ms (Bol multiline) s = (case prev s of None \<Rightarrow> [s]
                           | Some c \<Rightarrow> if multiline \<and> is_lt c then [s] else [])"
| "ms (Eol multiline) s = (case rest s of [] \<Rightarrow> [s]
                           | c # t \<Rightarrow> if multiline \<and> is_lt c then [s] else [])"

text \<open>Pattern syntax: literals, with and without the \<^verbatim>\<open>i\<close> flag, and the quantifiers.\<close>

definition chr :: "char \<Rightarrow> rx" where
  "chr c = Cls (\<lambda>x. x = of_char c)"

definition chr_i :: "char \<Rightarrow> rx" where
  "chr_i c = Cls (\<lambda>x. upper_ascii x = upper_ascii (of_char c))"

definition lit :: "string \<Rightarrow> rx" where
  "lit s = foldr (\<lambda>c r. Seq (chr c) r) s Eps"

definition lit_i :: "string \<Rightarrow> rx" where
  "lit_i s = foldr (\<lambda>c r. Seq (chr_i c) r) s Eps"

definition seqs :: "rx list \<Rightarrow> rx" where
  "seqs rs = foldr Seq rs Eps"

definition star :: "rx \<Rightarrow> rx" where "star r = Rep 0 None True r"
definition plus :: "rx \<Rightarrow> rx" where "plus r = Rep 1 None True r"
definition opt :: "rx \<Rightarrow> rx" where "opt r = Rep 0 (Some 1) True r"
definition star_lazy :: "rx \<Rightarrow> rx" where "star_lazy r = Rep 0 None False r"
definition plus_lazy :: "rx \<Rightarrow> rx" where "plus_lazy r = Rep 1 None False r"

definition none_of :: "string \<Rightarrow> rx" where
  "none_of s = Cls (\<lambda>x. x \<notin> set (str s))"

definition one_of :: "string \<Rightarrow> rx" where
  "one_of s = Cls (\<lambda>x. x \<in> set (str s))"

text \<open>\<^verbatim>\<open>.\<close> without the \<^verbatim>\<open>s\<close> flag, \<^verbatim>\<open>.\<close> with it (also \<^verbatim>\<open>[\s\S]\<close>).\<close>

definition dot :: rx where "dot = Cls (\<lambda>x. \<not> is_lt x)"
definition any :: rx where "any = Cls (\<lambda>x. True)"

text \<open>
  A match as the replacement sees it: the matched text and the captures. \<open>grp i m\<close> is
  \<^verbatim>\<open>$i\<close>, empty when group \<open>i\<close> took no part in the match.
\<close>

type_synonym rmatch = "jstring \<times> (nat \<times> jstring) list"

definition grp :: "nat \<Rightarrow> rmatch \<Rightarrow> jstring" where
  "grp i m = (case map_of (snd m) i of None \<Rightarrow> [] | Some v \<Rightarrow> v)"

definition match_at :: "rx \<Rightarrow> jchar option \<Rightarrow> jstring \<Rightarrow> (nat \<times> rmatch) option" where
  "match_at r p s =
     (case ms r \<lparr>prev = p, rest = s, caps = []\<rparr> of
        [] \<Rightarrow> None
      | m # _ \<Rightarrow> let k = length s - length (rest m) in Some (k, (take k s, caps m)))"

text \<open>
  \<^verbatim>\<open>s.replace(r, f)\<close> for a regular expression with the \<^verbatim>\<open>g\<close> flag: at every
  position, from left to right, the first match is replaced; after a match the search
  goes on behind it, and one code unit further after an empty match. The counter skips
  the code units of the match just replaced; the option is the code unit before the
  current position.
\<close>

fun replace_go :: "rx \<Rightarrow> (rmatch \<Rightarrow> jstring) \<Rightarrow> jchar option \<Rightarrow> nat \<Rightarrow> jstring \<Rightarrow> jstring" where
  "replace_go r f p (Suc k) (c # t) = replace_go r f (Some c) k t"
| "replace_go r f p (Suc k) [] = []"
| "replace_go r f p 0 [] = (case match_at r p [] of None \<Rightarrow> [] | Some (k, m) \<Rightarrow> f m)"
| "replace_go r f p 0 (c # t) =
     (case match_at r p (c # t) of
        None \<Rightarrow> c # replace_go r f (Some c) 0 t
      | Some (k, m) \<Rightarrow>
          (if k = 0 then f m @ c # replace_go r f (Some c) 0 t
           else f m @ replace_go r f (Some c) (k - 1) t))"

definition replace_all :: "rx \<Rightarrow> (rmatch \<Rightarrow> jstring) \<Rightarrow> jstring \<Rightarrow> jstring" where
  "replace_all r f s = replace_go r f None 0 s"

text \<open>
  \<^verbatim>\<open>s.match(r)\<close> and \<^verbatim>\<open>r.test(s)\<close> without the \<^verbatim>\<open>g\<close> flag: the first
  match, searched from the left.
\<close>

fun search_go :: "rx \<Rightarrow> jchar option \<Rightarrow> jstring \<Rightarrow> rmatch option" where
  "search_go r p [] = map_option snd (match_at r p [])"
| "search_go r p (c # t) =
     (case match_at r p (c # t) of
        Some (k, m) \<Rightarrow> Some m
      | None \<Rightarrow> search_go r (Some c) t)"

definition rx_match :: "rx \<Rightarrow> jstring \<Rightarrow> rmatch option" where
  "rx_match r s = search_go r None s"

definition rx_test :: "rx \<Rightarrow> jstring \<Rightarrow> bool" where
  "rx_test r s = (rx_match r s \<noteq> None)"

text \<open>
  \<^verbatim>\<open>s.split(r)\<close> (ECMAScript's RegExp.prototype[@@split], no limit, no capture
  group): a match is tried at every position before the end; a match that ends where
  the last piece began splits nothing. \<open>acc\<close> is the piece being read.
\<close>

fun split_go :: "rx \<Rightarrow> jchar option \<Rightarrow> nat \<Rightarrow> jstring \<Rightarrow> jstring \<Rightarrow> jstring list" where
  "split_go r p k acc [] = [acc]"
| "split_go r p (Suc k) acc (c # t) = split_go r (Some c) k acc t"
| "split_go r p 0 acc (c # t) =
     (case match_at r p (c # t) of
        None \<Rightarrow> split_go r (Some c) 0 (acc @ [c]) t
      | Some (k, m) \<Rightarrow>
          (if k = 0 then
             (if acc = [] then split_go r (Some c) 0 [c] t
              else acc # split_go r (Some c) 0 [c] t)
           else acc # split_go r (Some c) (k - 1) [] t))"

definition split_rx :: "rx \<Rightarrow> jstring \<Rightarrow> jstring list" where
  "split_rx r s =
     (if s = [] then (if match_at r None [] = None then [[]] else [])
      else split_go r None 0 [] s)"

section \<open>The markup normaliser (wiki-parser.ts)\<close>

definition chn :: "nat \<Rightarrow> rx" where
  "chn n = Cls (\<lambda>x. x = n)"

definition space :: rx where
  "space = Cls is_space"

definition alts :: "rx list \<Rightarrow> rx" where
  "alts rs = foldr Alt (butlast rs) (last rs)"

subsection \<open>extractInfoboxText\<close>

text \<open>\<^verbatim>\<open>/^\s*(\w[\w\s]*?)\s*=\s*(.+?)\s*$/s\<close>\<close>

definition infobox_param_rx :: rx where
  "infobox_param_rx =
     seqs [Bol False, star space,
           Grp 1 (Seq (Cls is_word) (star_lazy (Cls (\<lambda>x. is_word x \<or> is_space x)))),
           star space, chr CHR ''='', star space, Grp 2 (plus_lazy any), star space, Eol False]"

text \<open>\<^verbatim>\<open>/^(image|icon|caption|imagewidth|imageheight|style|class|colspan|rowspan)$/i\<close>\<close>

definition infobox_skip_rx :: rx where
  "infobox_skip_rx =
     seqs [Bol False,
           Grp 1 (alts (map lit_i [''image'', ''icon'', ''caption'', ''imagewidth'',
                                   ''imageheight'', ''style'', ''class'', ''colspan'', ''rowspan''])),
           Eol False]"

fun infobox_lines :: "jstring list \<Rightarrow> jstring list" where
  "infobox_lines [] = []"
| "infobox_lines (param # params) =
     (case rx_match infobox_param_rx param of
        None \<Rightarrow> infobox_lines params
      | Some m \<Rightarrow>
          (let key = trim (grp 1 m); val = trim (grp 2 m)
           in if rx_test infobox_skip_rx key then infobox_lines params
              else if val \<noteq> [] then (key @ str '': '' @ val) # infobox_lines params
              else infobox_lines params))"

definition extractInfoboxText :: "jstring list \<Rightarrow> jstring" where
  "extractInfoboxText params =
     (let lines = infobox_lines params
      in if length lines > 0 then join [10] lines @ [10] else [])"

subsection \<open>extractTemplateText\<close>

text \<open>
  \<^verbatim>\<open>parts[i] ? f(parts[i]) : ""\<close>: the element is used when it exists and is not the
  empty string.
\<close>

definition part_or_empty :: "jstring list \<Rightarrow> nat \<Rightarrow> (jstring \<Rightarrow> jstring) \<Rightarrow> jstring" where
  "part_or_empty parts i f = (if i < length parts \<and> parts ! i \<noteq> [] then f (parts ! i) else [])"

text \<open>
  \<open>split\<close> returns at least one piece, so \<^verbatim>\<open>parts[0]\<close> exists; the first case below
  is never taken.
\<close>

definition extractTemplateText :: "jstring \<Rightarrow> jstring" where
  "extractTemplateText content =
     (case split_str (str ''|'') content of
        [] \<Rightarrow> []
      | p0 # ps \<Rightarrow>
          (let parts = p0 # ps; templateName = toLowerCase (trim p0)
           in if startsWith templateName (str ''infobox'') then extractInfoboxText ps
              else if templateName = str ''quote'' \<or> templateName = str ''cquote''
                then part_or_empty parts 1 (\<lambda>p. [34] @ trim p @ [34])
              else if templateName = str ''color'' \<and> length parts \<ge> 3 then trim (parts ! 2)
              else if templateName = str ''main'' \<or> templateName = str ''see also''
                then part_or_empty parts 1 (\<lambda>p. str ''(See: '' @ trim p @ str '')'')
              else if templateName = str ''nihongo'' then part_or_empty parts 1 trim
              else []))"

subsection \<open>processTemplates\<close>

text \<open>\<^verbatim>\<open>/\{\{([^{}]*)\}\}/g\<close>\<close>

definition template_rx :: rx where
  "template_rx = seqs [lit ''{{'', Grp 1 (star (none_of ''{}'')), lit ''}}'']"

definition template_pass :: "jstring \<Rightarrow> jstring" where
  "template_pass text = replace_all template_rx (\<lambda>m. extractTemplateText (grp 1 m)) text"

definition maxIterations :: nat where
  "maxIterations = 50"

text \<open>The while loop; it returns the text together with the number of passes made.\<close>

function processTemplates_loop :: "jstring \<Rightarrow> jstring \<Rightarrow> nat \<Rightarrow> jstring \<times> nat" where
  "processTemplates_loop text previous iterations =
     (if text \<noteq> previous \<and> iterations < maxIterations
      then processTemplates_loop (template_pass text) text (iterations + 1)
      else (text, iterations))"
  by pat_completeness auto
termination
  by (relation "measure (\<lambda>(text, previous, iterations). maxIterations - iterations)") auto

declare processTemplates_loop.simps [simp del]

definition processTemplates :: "jstring \<Rightarrow> jstring" where
  "processTemplates text = fst (processTemplates_loop text [] 0)"

subsection \<open>processTables\<close>

definition table_cells :: "jstring \<Rightarrow> jstring" where
  "table_cells content =
     join (str '' | '') (filter (\<lambda>cell. cell \<noteq> []) (map trim (split_str (str ''||'') content)))"

definition processTables :: "jstring \<Rightarrow> jstring" where
  "processTables text0 =
     (let text = replace_all (seqs [Bol True, lit ''{|'', star (Cls (\<lambda>x. x \<noteq> 10)), Eol True])
                   (\<lambda>m. []) text0;
          text = replace_all (seqs [Bol True, lit ''|}'', Eol True]) (\<lambda>m. []) text;
          text = replace_all (seqs [Bol True, lit ''|+'', star space, Grp 1 (star dot)]) (grp 1) text;
          text = replace_all (seqs [Bol True, lit ''|-'', star (Cls (\<lambda>x. x \<noteq> 10))]) (\<lambda>m. []) text;
          text = replace_all (seqs [Bol True, lit ''!'', star space, Grp 1 (star dot)]) (grp 1) text;
          text = replace_all (seqs [Bol True, lit ''|'', star space, Grp 1 (star dot)])
                   (\<lambda>m. table_cells (grp 1 m)) text
      in text)"

subsection \<open>decodeHtmlEntities\<close>

definition entities :: "(string \<times> jstring) list" where
  "entities =
     [(''&amp;'', str ''&''), (''&lt;'', str ''<''), (''&gt;'', str ''>''), (''&quot;'', [34]),
      (''&apos;'', [39]), (''&#39;'', [39]), (''&nbsp;'', str '' ''), (''&ndash;'', [8211]),
      (''&mdash;'', [8212]), (''&hellip;'', str ''...''), (''&bull;'', [8226]),
      (''&trade;'', [8482]), (''&copy;'', [169]), (''&reg;'', [174])]"

text \<open>
  \<^verbatim>\<open>parseInt(code, radix)\<close> on a string of digits of that radix, as the exact integer,
  and the Number it becomes: the nearest double, ties to even, with \<open>None\<close> for
  \<^verbatim>\<open>Infinity\<close>.
\<close>

definition digit_val :: "jchar \<Rightarrow> nat" where
  "digit_val c = (if is_digit c then c - 48 else if is_lower c then c - 87 else c - 55)"

definition parse_digits :: "nat \<Rightarrow> jstring \<Rightarrow> nat" where
  "parse_digits radix code = foldl (\<lambda>n c. n * radix + digit_val c) 0 code"

fun bitlen :: "nat \<Rightarrow> nat" where
  "bitlen n = (if n = 0 then 0 else Suc (bitlen (n div 2)))"

definition to_double :: "nat \<Rightarrow> nat option" where
  "to_double n =
     (if n < 2 ^ 53 then Some n
      else let e = bitlen n - 53; q = n div 2 ^ e; r = n mod 2 ^ e;
               q' = (if r > 2 ^ (e - 1) \<or> (r = 2 ^ (e - 1) \<and> odd q) then q + 1 else q);
               d = q' * 2 ^ e
           in if d \<ge> 2 ^ 1024 then None else Some d)"

text \<open>\<^verbatim>\<open>String.fromCharCode(x)\<close>: the code unit \<open>ToUint16 x\<close>, which is 0 for infinity.\<close>

definition fromCharCode :: "nat option \<Rightarrow> jstring" where
  "fromCharCode x = (case x of None \<Rightarrow> [0] | Some n \<Rightarrow> [n mod 65536])"

text \<open>\<^verbatim>\<open>/&#(\d+);/g\<close> and \<^verbatim>\<open>/&#x([0-9a-f]+);/gi\<close>\<close>

definition dec_entity_rx :: rx where
  "dec_entity_rx = seqs [lit ''&#'', Grp 1 (plus (Cls is_digit)), chr CHR '';'']"

definition is_hex :: "jchar \<Rightarrow> bool" where
  "is_hex c = (is_digit c \<or> (97 \<le> c \<and> c \<le> 102) \<or> (65 \<le> c \<and> c \<le> 70))"

definition hex_entity_rx :: rx where
  "hex_entity_rx = seqs [lit_i ''&#x'', Grp 1 (plus (Cls is_hex)), chr_i CHR '';'']"

definition decodeHtmlEntities :: "jstring \<Rightarrow> jstring" where
  "decodeHtmlEntities text0 =
     (let text = foldl (\<lambda>t (entity, replacement). replace_all (lit_i entity) (\<lambda>m. replacement) t)
                   text0 entities;
          text = replace_all dec_entity_rx
                   (\<lambda>m. fromCharCode (to_double (parse_digits 10 (grp 1 m)))) text;
          text = replace_all hex_entity_rx
                   (\<lambda>m. fromCharCode (to_double (parse_digits 16 (grp 1 m)))) text
      in text)"

subsection \<open>parseWikitext\<close>

text \<open>The replacements of \<open>parseWikitext\<close>, in the order of the source, as pairs of a
  pattern and what replaces a match.\<close>

definition strip_steps :: "(rx \<times> (rmatch \<Rightarrow> jstring)) list" where
  "strip_steps =
     [(seqs [lit_i ''<noinclude'', star_lazy any, lit_i ''</noinclude>''], \<lambda>m. []),
      (seqs [chr_i CHR ''<'', opt (chr_i CHR ''/''), lit_i ''includeonly>''], \<lambda>m. []),
      (seqs [lit ''<!--'', star_lazy any, lit ''-->''], \<lambda>m. []),
      (seqs [lit ''__'', alts [lit ''TOC'', lit ''NOTOC'', lit ''FORCETOC''], lit ''__''], \<lambda>m. []),
      (seqs [lit_i ''{{DISPLAYTITLE:'', star (none_of ''}''), lit_i ''}}''], \<lambda>m. []),
      (seqs [lit_i ''[['', alts [lit_i ''File'', lit_i ''Image''], chr_i CHR '':'',
             star (none_of '']''), lit_i '']]''], \<lambda>m. []),
      (seqs [lit_i ''[[Category:'', star (none_of '']''), lit_i '']]''], \<lambda>m. [])]"

definition inline_steps :: "(rx \<times> (rmatch \<Rightarrow> jstring)) list" where
  "inline_steps =
     [(seqs [lit ''[['', Grp 1 (plus (none_of '']|'')), lit ''|'', Grp 2 (plus (none_of '']'')),
             lit '']]''], grp 2),
      (seqs [lit ''[['', Grp 1 (plus (none_of '']'')), lit '']]''], grp 1),
      (seqs [lit ''[http'', opt (chr CHR ''s''), lit ''://'',
             plus (Cls (\<lambda>x. \<not> is_space x \<and> x \<noteq> 93)), lit '' '',
             Grp 1 (plus (none_of '']'')), lit '']''], grp 1),
      (seqs [lit ''[http'', opt (chr CHR ''s''), lit ''://'', Grp 1 (plus (none_of '']'')),
             lit '']''], grp 1),
      (seqs [Bol True, Rep 1 (Some 6) True (chr CHR ''=''), star space, Grp 1 (plus_lazy dot),
             star space, Rep 1 (Some 6) True (chr CHR ''=''), star space, Eol True],
       \<lambda>m. [10] @ grp 1 m @ [10]),
      (seqs [Rep 5 (Some 5) True (chn 39), Grp 1 (plus_lazy dot), Rep 5 (Some 5) True (chn 39)],
       grp 1),
      (seqs [Rep 3 (Some 3) True (chn 39), Grp 1 (plus_lazy dot), Rep 3 (Some 3) True (chn 39)],
       grp 1),
      (seqs [Rep 2 (Some 2) True (chn 39), Grp 1 (plus_lazy dot), Rep 2 (Some 2) True (chn 39)],
       grp 1),
      (seqs [lit_i ''<br'', star space, opt (chr_i CHR ''/''), chr_i CHR ''>''], \<lambda>m. [10]),
      (seqs [chr CHR ''<'', opt (chr CHR ''/''), plus (none_of ''>''), chr CHR ''>''], \<lambda>m. []),
      (seqs [Bol True, plus (chr CHR ''*''), star space], \<lambda>m. str ''- ''),
      (seqs [Bol True, plus (chr CHR ''#''), star space], \<lambda>m. str ''- ''),
      (seqs [Bol True, plus (chr CHR '';''), star space], \<lambda>m. []),
      (seqs [Bol True, plus (chr CHR '':''), star space], \<lambda>m. str ''  ''),
      (seqs [Bol True, Rep 4 None True (chr CHR ''-''), star space, Eol True], \<lambda>m. [])]"

definition space_steps :: "(rx \<times> (rmatch \<Rightarrow> jstring)) list" where
  "space_steps =
     [(plus (Cls (\<lambda>x. x = 32 \<or> x = 9)), \<lambda>m. str '' ''),
      (Rep 3 None True (chn 10), \<lambda>m. [10, 10])]"

definition run_steps :: "(rx \<times> (rmatch \<Rightarrow> jstring)) list \<Rightarrow> jstring \<Rightarrow> jstring" where
  "run_steps steps text = foldl (\<lambda>t (r, f). replace_all r f t) text steps"

definition parseWikitext :: "jstring \<Rightarrow> jstring" where
  "parseWikitext raw =
     (let text = run_steps strip_steps raw;
          text = processTemplates text;
          text = processTables text;
          text = run_steps inline_steps text;
          text = decodeHtmlEntities text;
          text = run_steps space_steps text
      in trim text)"

subsection \<open>Text without markup\<close>

text \<open>
  The characters with which a pattern of the normaliser can begin a match (the
  apostrophe is 39), and the texts without any of them. \<open>first_in P r\<close> says of a
  pattern that every match of it begins by reading a character in \<open>P\<close>;
  \<open>zero_width r\<close> that \<open>r\<close> reads nothing.
\<close>

definition markup_char :: "jchar \<Rightarrow> bool" where
  "markup_char c = (c \<in> set (str ''<_{[|!=*#;:-&'') \<or> c = 39)"

definition plain_text :: "jstring \<Rightarrow> bool" where
  "plain_text s = (\<forall>c\<in>set s. \<not> markup_char c)"

primrec zero_width :: "rx \<Rightarrow> bool" where
  "zero_width (Cls P) = False"
| "zero_width Eps = True"
| "zero_width (Seq a b) = (zero_width a \<and> zero_width b)"
| "zero_width (Alt a b) = (zero_width a \<and> zero_width b)"
| "zero_width (Rep mn mx greedy r) = False"
| "zero_width (Grp i r) = zero_width r"
| "zero_width (Bol multiline) = True"
| "zero_width (Eol multiline) = True"

primrec first_in :: "(jchar \<Rightarrow> bool) \<Rightarrow> rx \<Rightarrow> bool" where
  "first_in P (Cls Q) = (\<forall>x. Q x \<longrightarrow> P x)"
| "first_in P Eps = False"
| "first_in P (Seq a b) = (first_in P a \<or> (zero_width a \<and> first_in P b))"
| "first_in P (Alt a b) = (first_in P a \<and> first_in P b)"
| "first_in P (Rep mn mx greedy r) = (mn \<noteq> 0 \<and> mx \<noteq> Some 0 \<and> first_in P r)"
| "first_in P (Grp i r) = first_in P r"
| "first_in P (Bol multiline) = False"
| "first_in P (Eol multiline) = False"

section \<open>The document store (database.ts)\<close>

subsection \<open>Tables\<close>

text \<open>
  The state of the SQLite file: the rows of \<^verbatim>\<open>pages\<close> and \<^verbatim>\<open>categories\<close> in rowid
  order, the two AUTOINCREMENT counters that \<^verbatim>\<open>sqlite_sequence\<close> keeps, and the entries
  that the external-content table \<^verbatim>\<open>pages_fts\<close> has indexed (\<open>None\<close> while the virtual
  table and its three triggers have not been created).

  A TEXT value is UTF-8 in the file. It is modelled by the list of its code points:
  two values are equal when their bytes are, and the BINARY collation, which compares the
  bytes, is the lexicographic order of the code points. \<open>to_text\<close> is the conversion
  that better-sqlite3 makes when it binds a JavaScript string: a surrogate pair becomes
  one code point and a surrogate outside a pair becomes U+FFFD (a number that is no code
  unit is treated like one). \<open>from_text\<close> is the string that a column is read back as.
\<close>

type_synonym sqltext = "nat list"

definition is_high :: "jchar \<Rightarrow> bool" where
  "is_high c = (55296 \<le> c \<and> c \<le> 56319)"

definition is_low :: "jchar \<Rightarrow> bool" where
  "is_low c = (56320 \<le> c \<and> c \<le> 57343)"

definition lone :: "jchar \<Rightarrow> bool" where
  "lone c = (is_high c \<or> is_low c \<or> 65536 \<le> c)"

fun to_text :: "jstring \<Rightarrow> sqltext" where
  "to_text [] = []"
| "to_text [c] = (if lone c then [65533] else [c])"
| "to_text (c # d # ds) =
     (if is_high c \<and> is_low d then (65536 + (c - 55296) * 1024 + (d - 56320)) # to_text ds
      else if lone c then 65533 # to_text (d # ds)
      else c # to_text (d # ds))"

definition from_text :: "sqltext \<Rightarrow> jstring" where
  "from_text t =
     concat (map (\<lambda>c. if c < 65536 then [c]
                       else [55296 + (c - 65536) div 1024, 56320 + (c - 65536) mod 1024]) t)"

text \<open>The number of bytes of a TEXT value.\<close>

definition utf8_length :: "sqltext \<Rightarrow> nat" where
  "utf8_length t = sum_list (map (\<lambda>c. if c < 128 then 1 else if c < 2048 then 2
                                       else if c < 65536 then 3 else 4) t)"

record page_row =
  row_id :: nat
  row_title :: sqltext
  row_content :: sqltext
  row_url :: sqltext
  row_categories :: sqltext
  row_last_modified :: "sqltext option"
  row_scraped_at :: sqltext

record category_row =
  cat_id :: nat
  cat_name :: sqltext
  cat_page_count :: nat

type_synonym fts_entry = "nat \<times> sqltext \<times> sqltext"

record db =
  pages :: "page_row list"
  pages_seq :: nat
  categories_tbl :: "category_row list"
  categories_seq :: nat
  pages_fts :: "fts_entry list option"

text \<open>
  \<open>PageData\<close> of types.ts. The types are erased at run time: a \<^verbatim>\<open>null\<close> in
  \<open>title\<close>, \<open>content\<close> or \<open>url\<close> is bound as NULL and meets the NOT NULL constraint of
  the column, so these three fields are options here.
\<close>

record PageData =
  title :: "jstring option"
  content :: "jstring option"
  url :: "jstring option"
  categories :: "jstring list"
  last_modified :: "jstring option"

datatype db_error = NotNull string | LikePatternTooComplex

subsection \<open>JSON.stringify and JSON.parse on arrays of strings\<close>

definition hex_digit :: "nat \<Rightarrow> jchar" where
  "hex_digit d = (if d < 10 then 48 + d else 87 + d)"

definition esc_u :: "jchar \<Rightarrow> jstring" where
  "esc_u c = [92, 117, hex_digit (c div 4096 mod 16), hex_digit (c div 256 mod 16),
              hex_digit (c div 16 mod 16), hex_digit (c mod 16)]"

definition json_escape :: "jchar \<Rightarrow> jstring" where
  "json_escape c =
     (if c = 8 then [92, 98] else if c = 9 then [92, 116] else if c = 10 then [92, 110]
      else if c = 12 then [92, 102] else if c = 13 then [92, 114]
      else if c = 34 then [92, 34] else if c = 92 then [92, 92]
      else if c < 32 then esc_u c else [c])"

text \<open>QuoteJSONString without the quotes: a surrogate outside a pair is escaped.\<close>

fun json_body :: "jstring \<Rightarrow> jstring" where
  "json_body [] = []"
| "json_body [c] = (if is_high c \<or> is_low c then esc_u c else json_escape c)"
| "json_body (c # d # ds) =
     (if is_high c \<and> is_low d then c # d # json_body ds
      else if is_high c \<or> is_low c then esc_u c @ json_body (d # ds)
      else json_escape c @ json_body (d # ds))"

definition json_quote :: "jstring \<Rightarrow> jstring" where
  "json_quote s = [34] @ json_body s @ [34]"

definition json_stringify :: "jstring list \<Rightarrow> jstring" where
  "json_stringify cats = [91] @ join [44] (map json_quote cats) @ [93]"

text \<open>
  \<^verbatim>\<open>JSON.parse\<close> on the texts that the column holds: an array of strings. \<open>None\<close> is
  the SyntaxError; a JSON text of another shape is also mapped to \<open>None\<close>, the column
  being written by \<open>json_stringify\<close> alone.
\<close>

definition is_json_ws :: "jchar \<Rightarrow> bool" where
  "is_json_ws c = (c = 32 \<or> c = 9 \<or> c = 10 \<or> c = 13)"

definition hex_val :: "jchar \<Rightarrow> nat option" where
  "hex_val c = (if is_digit c then Some (c - 48) else if 97 \<le> c \<and> c \<le> 102 then Some (c - 87)
                else if 65 \<le> c \<and> c \<le> 70 then Some (c - 55) else None)"

text \<open>The characters of a string up to its closing quote, and the text behind it.\<close>

fun parse_string_body :: "jstring \<Rightarrow> (jstring \<times> jstring) option" where
  "parse_string_body [] = None"
| "parse_string_body (c # cs) =
     (if c = 34 then Some ([], cs)
      else if c = 92 then
        (case cs of
           [] \<Rightarrow> None
         | e # es \<Rightarrow>
             (if e = 117 then
                (case es of
                   h1 # h2 # h3 # h4 # r \<Rightarrow>
                     (case (hex_val h1, hex_val h2, hex_val h3, hex_val h4) of
                        (Some a, Some b, Some c', Some d) \<Rightarrow>
                          map_option (\<lambda>(v, r'). ((a * 4096 + b * 256 + c' * 16 + d) # v, r'))
                                     (parse_string_body r)
                      | _ \<Rightarrow> None)
                 | _ \<Rightarrow> None)
              else
                (case (if e = 34 then Some 34 else if e = 92 then Some 92 else if e = 47 then Some 47
                       else if e = 98 then Some 8 else if e = 102 then Some 12
                       else if e = 110 then Some 10 else if e = 114 then Some 13
                       else if e = 116 then Some (9::nat) else None) of
                   None \<Rightarrow> None
                 | Some x \<Rightarrow> map_option (\<lambda>(v, r'). (x # v, r')) (parse_string_body es))))
      else if c < 32 then None
      else map_option (\<lambda>(v, r'). (c # v, r')) (parse_string_body cs))"

text \<open>
  After an element: a comma and the next element, or the closing bracket. The number
  bounds the elements still to be read, one at most per remaining character.
\<close>

fun parse_elements :: "nat \<Rightarrow> jstring \<Rightarrow> (jstring list \<times> jstring) option" where
  "parse_elements 0 s = None"
| "parse_elements (Suc n) s =
     (case dropWhile is_json_ws s of
        [] \<Rightarrow> None
      | c # cs \<Rightarrow>
          (if c = 93 then Some ([], cs)
           else if c = 44 then
             (case dropWhile is_json_ws cs of
                [] \<Rightarrow> None
              | q # qs \<Rightarrow>
                  (if q = 34 then
                     (case parse_string_body qs of
                        None \<Rightarrow> None
                      | Some (v, r) \<Rightarrow> map_option (\<lambda>(vs, r'). (v # vs, r')) (parse_elements n r))
                   else None))
           else None))"

definition json_parse :: "jstring \<Rightarrow> jstring list option" where
  "json_parse s =
     (case dropWhile is_json_ws s of
        [] \<Rightarrow> None
      | c # cs \<Rightarrow>
          (if c = 91 then
             (case dropWhile is_json_ws cs of
                [] \<Rightarrow> None
              | q # qs \<Rightarrow>
                  (if q = 93 then (if dropWhile is_json_ws qs = [] then Some [] else None)
                   else if q = 34 then
                     (case parse_string_body qs of
                        None \<Rightarrow> None
                      | Some (v, r) \<Rightarrow>
                          (case parse_elements (Suc (length r)) r of
                             None \<Rightarrow> None
                           | Some (vs, r') \<Rightarrow>
                               (if dropWhile is_json_ws r' = [] then Some (v # vs) else None)))
                   else None))
           else None))"

subsection \<open>initialize\<close>

definition fts_of_row :: "page_row \<Rightarrow> fts_entry" where
  "fts_of_row r = (row_id r, row_title r, row_content r)"

text \<open>
  The tables are created if they do not exist; when the query on \<^verbatim>\<open>pages_fts\<close> throws,
  the virtual table and the triggers are created and the index is filled from
  \<^verbatim>\<open>pages\<close>.
\<close>

definition new_file :: db where
  "new_file = \<lparr>pages = [], pages_seq = 0, categories_tbl = [], categories_seq = 0,
               pages_fts = None\<rparr>"

definition initialize :: "db \<Rightarrow> db" where
  "initialize s =
     (case pages_fts s of
        Some idx \<Rightarrow> s
      | None \<Rightarrow> s\<lparr>pages_fts := Some (map fts_of_row (pages s))\<rparr>)"

subsection \<open>upsertPage and upsertPages\<close>

text \<open>
  The triggers \<^verbatim>\<open>pages_ai\<close> and \<^verbatim>\<open>pages_au\<close>: an insert adds the entry of the new
  row to the index, an update deletes the entry of the old row and adds that of the new.
\<close>

definition trigger_ai :: "page_row \<Rightarrow> fts_entry list option \<Rightarrow> fts_entry list option" where
  "trigger_ai new idx = map_option (\<lambda>i. i @ [fts_of_row new]) idx"

definition trigger_au :: "page_row \<Rightarrow> page_row \<Rightarrow> fts_entry list option \<Rightarrow> fts_entry list option" where
  "trigger_au old new idx = map_option (\<lambda>i. remove1 (fts_of_row old) i @ [fts_of_row new]) idx"

text \<open>
  AUTOINCREMENT: the rowid offered to an insert is one more than the largest rowid that
  the table ever held. SQLite draws it before it looks for a conflict, so the counter
  also moves when the statement ends as an update.
\<close>

definition next_rowid :: "nat \<Rightarrow> nat list \<Rightarrow> nat" where
  "next_rowid seq ids = Suc (fold max ids seq)"

text \<open>
  The row of \<^verbatim>\<open>pages\<close> whose title conflicts with the new one: the UNIQUE constraint
  of the column compares with the default collation, BINARY.
\<close>

fun update_row :: "sqltext \<Rightarrow> (page_row \<Rightarrow> page_row) \<Rightarrow> page_row list \<Rightarrow> page_row list" where
  "update_row t f [] = []"
| "update_row t f (r # rs) = (if row_title r = t then f r # rs else r # update_row t f rs)"

text \<open>
  \<^verbatim>\<open>stmt.run\<close> of the INSERT ... ON CONFLICT(title) DO UPDATE statement; \<open>now\<close> is
  the value of \<^verbatim>\<open>datetime('now')\<close>. The parameters are bound as TEXT. A statement that
  fails leaves the database as it was.
\<close>

definition run_upsert :: "sqltext \<Rightarrow> PageData \<Rightarrow> db \<Rightarrow> db_error option \<times> db" where
  "run_upsert now page s =
     (case title page of
        None \<Rightarrow> (Some (NotNull ''pages.title''), s)
      | Some t \<Rightarrow>
     (case content page of
        None \<Rightarrow> (Some (NotNull ''pages.content''), s)
      | Some c \<Rightarrow>
     (case url page of
        None \<Rightarrow> (Some (NotNull ''pages.url''), s)
      | Some u \<Rightarrow>
          (let rowid = next_rowid (pages_seq s) (map row_id (pages s));
               cats = to_text (json_stringify (categories page));
               modified = map_option to_text (last_modified page)
           in case find (\<lambda>r. row_title r = to_text t) (pages s) of
                None \<Rightarrow>
                  (let new = \<lparr>row_id = rowid, row_title = to_text t, row_content = to_text c,
                              row_url = to_text u, row_categories = cats,
                              row_last_modified = modified, row_scraped_at = now\<rparr>
                   in (None, s\<lparr>pages := pages s @ [new], pages_seq := rowid,
                                pages_fts := trigger_ai new (pages_fts s)\<rparr>))
              | Some old \<Rightarrow>
                  (let new = old\<lparr>row_content := to_text c, row_url := to_text u,
                                 row_categories := cats, row_last_modified := modified,
                                 row_scraped_at := now\<rparr>
                   in (None, s\<lparr>pages := update_row (to_text t) (\<lambda>r. new) (pages s),
                                pages_seq := rowid,
                                pages_fts := trigger_au old new (pages_fts s)\<rparr>))))))"

definition upsertPage :: "sqltext \<Rightarrow> PageData \<Rightarrow> db \<Rightarrow> db_error option \<times> db" where
  "upsertPage now page s = run_upsert now page s"

text \<open>
  The function given to \<^verbatim>\<open>db.transaction\<close>: the loop over the batch, each page with
  the time at which its statement runs. A statement that throws ends the loop, with the
  earlier statements done.
\<close>

fun upsert_loop :: "(sqltext \<times> PageData) list \<Rightarrow> db \<Rightarrow> db_error option \<times> db" where
  "upsert_loop [] s = (None, s)"
| "upsert_loop ((now, page) # batch) s =
     (case run_upsert now page s of
        (Some e, s') \<Rightarrow> (Some e, s')
      | (None, s') \<Rightarrow> upsert_loop batch s')"

text \<open>
  \<^verbatim>\<open>db.transaction(f)\<close> of better-sqlite3: BEGIN, the function, then COMMIT; when the
  function throws, ROLLBACK and the exception is thrown again.
\<close>

definition transaction :: "(db \<Rightarrow> db_error option \<times> db) \<Rightarrow> db \<Rightarrow> db_error option \<times> db" where
  "transaction f s = (case f s of (None, s') \<Rightarrow> (None, s') | (Some e, s') \<Rightarrow> (Some e, s))"

definition upsertPages :: "(sqltext \<times> PageData) list \<Rightarrow> db \<Rightarrow> db_error option \<times> db" where
  "upsertPages batch s = transaction (upsert_loop batch) s"

subsection \<open>Reading\<close>

definition getPageCount :: "db \<Rightarrow> nat" where
  "getPageCount s = length (pages s)"

definition getAllTitles :: "db \<Rightarrow> jstring list" where
  "getAllTitles s = map (\<lambda>r. from_text (row_title r)) (sort_key row_title (pages s))"

text \<open>\<^verbatim>\<open>WHERE title = ? COLLATE NOCASE\<close>: equal up to the case of the ASCII letters.\<close>

definition nocase_eq :: "sqltext \<Rightarrow> sqltext \<Rightarrow> bool" where
  "nocase_eq a b = (map upper_ascii a = map upper_ascii b)"

text \<open>The row that \<open>getPage\<close> selects; its columns are read back with \<open>from_text\<close>.\<close>

definition getPage :: "jstring \<Rightarrow> db \<Rightarrow> page_row option" where
  "getPage t s = find (\<lambda>r. nocase_eq (row_title r) (to_text t)) (pages s)"

definition getPageScrapedAt :: "jstring \<Rightarrow> db \<Rightarrow> jstring option" where
  "getPageScrapedAt t s =
     map_option (\<lambda>r. from_text (row_scraped_at r)) (find (\<lambda>r. row_title r = to_text t) (pages s))"

subsection \<open>Categories\<close>

text \<open>\<^verbatim>\<open>counts.set(cat, (counts.get(cat) || 0) + 1)\<close> on a Map, which keeps the order in
  which its keys were first set.\<close>

fun bump :: "(jstring \<times> nat) list \<Rightarrow> jstring \<Rightarrow> (jstring \<times> nat) list" where
  "bump [] cat = [(cat, 1)]"
| "bump ((k, v) # m) cat = (if k = cat then (k, v + 1) # m else (k, v) # bump m cat)"

text \<open>
  \<^verbatim>\<open>JSON.parse(page.categories || "[]")\<close> under \<^verbatim>\<open>try\<close>: the categories of a row,
  none when the text is malformed.
\<close>

definition row_cats :: "page_row \<Rightarrow> jstring list" where
  "row_cats r =
     (case json_parse (if row_categories r = [] then str ''[]''
                       else from_text (row_categories r)) of
        None \<Rightarrow> []
      | Some cats \<Rightarrow> cats)"

definition count_categories :: "page_row list \<Rightarrow> (jstring \<times> nat) list" where
  "count_categories rows = foldl (\<lambda>counts r. foldl bump counts (row_cats r)) [] rows"

text \<open>\<^verbatim>\<open>INSERT OR IGNORE INTO categories (name, page_count) VALUES (?, ?)\<close>\<close>

definition insert_category :: "db \<Rightarrow> jstring \<times> nat \<Rightarrow> db" where
  "insert_category s nc =
     (let rowid = next_rowid (categories_seq s) (map cat_id (categories_tbl s));
          name = to_text (fst nc)
      in if name \<in> set (map cat_name (categories_tbl s)) then s\<lparr>categories_seq := rowid\<rparr>
         else s\<lparr>categories_tbl := categories_tbl s
                    @ [\<lparr>cat_id = rowid, cat_name = name, cat_page_count = snd nc\<rparr>],
                 categories_seq := rowid\<rparr>)"

definition refreshCategories :: "db \<Rightarrow> db" where
  "refreshCategories s =
     (let s1 = s\<lparr>categories_tbl := []\<rparr>;
          counts = count_categories (pages s1)
      in foldl insert_category s1 counts)"

text \<open>\<^verbatim>\<open>SELECT name, page_count FROM categories WHERE page_count > 0 ORDER BY name\<close>\<close>

definition getCategories :: "db \<Rightarrow> (jstring \<times> nat) list" where
  "getCategories s =
     map (\<lambda>c. (from_text (cat_name c), cat_page_count c))
         (sort_key cat_name (filter (\<lambda>c. cat_page_count c > 0) (categories_tbl s)))"

subsection \<open>getPagesByCategory\<close>

text \<open>
  The LIKE operator of SQLite without ESCAPE: \<^verbatim>\<open>%\<close> stands for any text and
  \<^verbatim>\<open>_\<close> for one character; other characters match themselves, the ASCII letters
  in either case.
\<close>

fun like :: "sqltext \<Rightarrow> sqltext \<Rightarrow> bool" where
  "like [] s = (s = [])"
| "like (p # ps) [] = (p = 37 \<and> like ps [])"
| "like (p # ps) (c # t) =
     (if p = 37 then like ps (c # t) \<or> like (p # ps) t
      else (p = 95 \<or> upper_ascii p = upper_ascii c) \<and> like ps t)"

text \<open>
  The function behind the operator takes both operands as C strings, which end at the
  first NUL, and raises an error for a pattern of more than 50000 bytes.
\<close>

definition sql_like :: "sqltext \<Rightarrow> sqltext \<Rightarrow> bool" where
  "sql_like p t = like (takeWhile (\<lambda>x. x \<noteq> 0) p) (takeWhile (\<lambda>x. x \<noteq> 0) t)"

definition like_limit :: nat where
  "like_limit = 50000"




subsection \<open>searchPages\<close>

text \<open>\<^verbatim>\<open>query.replace(/[^\w\s-]/g, " ").split(/\s+/).filter((t) => t.length > 0)\<close>\<close>

definition query_tokens :: "jstring \<Rightarrow> jstring list" where
  "query_tokens query =
     filter (\<lambda>t. length t > 0)
       (split_rx (plus space)
          (replace_all (Cls (\<lambda>x. \<not> (is_word x \<or> is_space x \<or> x = 45))) (\<lambda>m. str '' '') query))"

definition sanitizeFtsQuery :: "jstring \<Rightarrow> jstring" where
  "sanitizeFtsQuery query =
     (let tokens = query_tokens query
      in if length tokens = 0 then []
         else str ''{title content} : '' @ join (str '' '') (map (\<lambda>t. [34] @ t @ [34]) tokens))"

text \<open>
  The MATCH query itself is run by the FTS5 engine, and the scores are floating-point
  numbers: \<open>run_query\<close> stands for \<^verbatim>\<open>stmt.all\<close> on the prepared SELECT, which may
  throw, and \<open>shape\<close> for the function mapped over its rows. The first component of
  the result lists the queries that were sent to the index.
\<close>

definition searchPages ::
  "(db \<Rightarrow> jstring \<Rightarrow> int \<Rightarrow> db_error + 'row list) \<Rightarrow> ('row \<Rightarrow> 'res) \<Rightarrow> jstring \<Rightarrow> int \<Rightarrow> db
     \<Rightarrow> jstring list \<times> (db_error + 'res list)" where
  "searchPages run_query shape query limit s =
     (let ftsQuery = sanitizeFtsQuery query
      in if ftsQuery = [] then ([], Inr [])
         else ([ftsQuery], map_sum id (map shape) (run_query s ftsQuery limit)))"

subsection \<open>Well-formed input\<close>

text \<open>A page whose statement can run: no NULL meets a NOT NULL column.\<close>

definition valid_page :: "PageData \<Rightarrow> bool" where
  "valid_page p = (title p \<noteq> None \<and> content p \<noteq> None \<and> url p \<noteq> None)"

subsection \<open>The index and the table\<close>

text \<open>
  The index is in sync when it exists and its entries are those of the rows, each once.
  A run of the store is a sequence of calls of the two writing methods; a call that
  throws is caught by the caller and the run goes on.
\<close>

definition fts_synced :: "db \<Rightarrow> bool" where
  "fts_synced s = (case pages_fts s of None \<Rightarrow> False
                   | Some idx \<Rightarrow> mset idx = mset (map fts_of_row (pages s)))"

datatype store_op = UpsertPage sqltext PageData | UpsertPages "(sqltext \<times> PageData) list"

fun apply_op :: "db \<Rightarrow> store_op \<Rightarrow> db" where
  "apply_op s (UpsertPage now page) = snd (upsertPage now page s)"
| "apply_op s (UpsertPages batch) = snd (upsertPages batch s)"

definition run_ops :: "store_op list \<Rightarrow> db \<Rightarrow> db" where
  "run_ops ops s = foldl apply_op s ops"

subsection \<open>Sample pages\<close>

text \<open>Pages in the manner of database.test.ts, for the concrete runs below.\<close>

definition page1 :: PageData where
  "page1 = \<lparr>title = Some (str ''Fishing''), content = Some (str ''Fishing is an activity''),
            url = Some (str ''/wiki/Fishing''), categories = [str ''Activities''],
            last_modified = None\<rparr>"

text \<open>The empty template, nested \<open>n\<close> deep.\<close>

definition nest :: "nat \<Rightarrow> jstring" where
  "nest n = replicate (2 * n) 123 @ replicate (2 * n) 125"

definition page2 :: PageData where
  "page2 = \<lparr>title = Some (str ''Cooking''), content = Some (str ''Cooking prepares food''),
            url = Some (str ''/wiki/Cooking''), categories = [str ''Activities'', str ''Food''],
            last_modified = Some (str ''2024-02-20'')\<rparr>"

definition page3 :: PageData where
  "page3 = \<lparr>title = Some (str ''Fishing Rod''), content = Some (str ''A tool used for fishing''),
            url = Some (str ''/wiki/Fishing_Rod''), categories = [str ''Items'', str ''Tools''],
            last_modified = Some (str ''2024-01-10'')\<rparr>"

definition store3 :: db where
  "store3 = snd (upsertPages [(str ''t1'', page1), (str ''t2'', page2), (str ''t3'', page3)]
                   (initialize new_file))"


text \<open>
  One page whose categories are two surrogates without a partner, U+1F600 and U+FF21,
  and one page whose category is a double quote and a letter.
\<close>

definition store_sur :: db where
  "store_sur = snd (upsertPage (str ''t1'')
      (page1\<lparr>categories := [[55296], [55297], [55357, 56832], [65313]]\<rparr>)
      (initialize new_file))"


text \<open>The name and the count of a row of \<^verbatim>\<open>categories\<close>.\<close>

definition name_count :: "category_row \<Rightarrow> sqltext \<times> nat" where
  "name_count c = (cat_name c, cat_page_count c)"


text \<open>
  A TEXT value as the conversion gives it: no surrogate, and no number beyond the last
  code point.
\<close>

definition valid_text :: "sqltext \<Rightarrow> bool" where
  "valid_text t = (\<forall>c\<in>set t. \<not> is_high c \<and> \<not> is_low c \<and> c < 1114112)"

text \<open>The names and counts of \<^verbatim>\<open>categories\<close> after an INSERT OR IGNORE.\<close>

definition insert_name :: "(sqltext \<times> nat) list \<Rightarrow> jstring \<times> nat \<Rightarrow> (sqltext \<times> nat) list" where
  "insert_name acc nc =
     (if to_text (fst nc) \<in> fst ` set acc then acc else acc @ [(to_text (fst nc), snd nc)])"

section \<open>Evaluation\<close>

text \<open>
  Rules with which the simplifier runs the definitions on concrete input: the definitions
  themselves, and the recursion equations for counters written as numerals.
\<close>

lemma rep_numeral:
  "rep (numeral k) mn mx greedy f s =
     (if mx = Some 0 then [s]
      else let iter = concat (map (\<lambda>s'. if mn = 0 \<and> length (rest s') = length (rest s) then []
                                         else rep (pred_numeral k) (mn - 1) (map_option (\<lambda>m. m - 1) mx) greedy f s')
                                  (f s))
           in if mn \<noteq> 0 then iter else if greedy then iter @ [s] else s # iter)"
  by (simp add: numeral_eq_Suc)

lemma replace_go_numeral:
  "replace_go r f p (numeral k) (c # t) = replace_go r f (Some c) (pred_numeral k) t"
  "replace_go r f p (numeral k) [] = []"
  by (simp_all add: numeral_eq_Suc)

lemma split_lit_numeral:
  "split_lit sep (numeral k) acc (c # t) = split_lit sep (pred_numeral k) acc t"
  by (simp add: numeral_eq_Suc)

lemma split_go_numeral:
  "split_go r p (numeral k) acc (c # t) = split_go r (Some c) (pred_numeral k) acc t"
  by (simp add: numeral_eq_Suc)

lemma parse_elements_numeral:
  "parse_elements (numeral k) s = parse_elements (Suc (pred_numeral k)) s"
  by (simp add: numeral_eq_Suc)

lemmas rx_defs = str_def chr_def chr_i_def lit_def lit_i_def seqs_def star_def plus_def opt_def
  star_lazy_def plus_lazy_def none_of_def one_of_def dot_def any_def chn_def space_def alts_def
  is_digit_def is_upper_def is_lower_def is_word_def is_lt_def is_space_def upper_ascii_def
  lower_ascii_def match_at_def replace_all_def grp_def Let_def rep_numeral replace_go_numeral
  split_lit_numeral split_go_numeral split_rx_def

lemmas parse_defs = parseWikitext_def run_steps_def strip_steps_def inline_steps_def
  space_steps_def processTemplates_def template_pass_def template_rx_def maxIterations_def
  processTables_def decodeHtmlEntities_def entities_def dec_entity_rx_def hex_entity_rx_def
  is_hex_def trim_def extractTemplateText_def split_str_def toLowerCase_def startsWith_def
  part_or_empty_def extractInfoboxText_def table_cells_def fromCharCode_def to_double_def
  parse_digits_def digit_val_def infobox_param_rx_def infobox_skip_rx_def rx_match_def rx_test_def

lemmas db_defs = new_file_def initialize_def fts_of_row_def trigger_ai_def trigger_au_def
  next_rowid_def run_upsert_def upsertPage_def transaction_def upsertPages_def getPageCount_def
  getAllTitles_def nocase_eq_def getPage_def getPageScrapedAt_def json_stringify_def
  json_quote_def json_escape_def esc_u_def hex_digit_def is_high_def is_low_def lone_def
  from_text_def utf8_length_def sql_like_def like_limit_def valid_page_def

section \<open>Matching a character class\<close>

lemma match_at_Cls_Nil: "match_at (Cls P) p [] = None"
  by (simp add: match_at_def)

lemma match_at_Cls_Cons:
  "match_at (Cls P) p (c # t) = (if P c then Some (1, ([c], [])) else None)"
  by (simp add: match_at_def)

lemma replace_go_Cls:
  "replace_go (Cls P) f p 0 s = concat (map (\<lambda>c. if P c then f ([c], []) else [c]) s)"
  by (induction s arbitrary: p) (simp_all add: match_at_Cls_Nil match_at_Cls_Cons)


lemma replace_all_Cls_const:
  "\<forall>c\<in>set s. P c \<Longrightarrow> replace_all (Cls P) (\<lambda>m. [x]) s = replicate (length s) x"
  unfolding replace_all_def replace_go_Cls by (induction s) simp_all

lemma rep_greedy_run:
  "rest s = xs @ ys \<Longrightarrow> \<forall>c\<in>set xs. P c \<Longrightarrow> (case ys of [] \<Rightarrow> True | y # _ \<Rightarrow> \<not> P y) \<Longrightarrow>
   mn \<le> length xs \<Longrightarrow> mn + length (rest s) \<le> n \<Longrightarrow>
   \<exists>more. rep n mn None True (ms (Cls P)) s
       = s\<lparr>prev := (if xs = [] then prev s else Some (last xs)), rest := ys\<rparr> # more"
proof (induction xs arbitrary: n mn s)
  case Nil
  then have r: "rest s = ys" and mn: "mn = 0" by simp_all
  have none: "ms (Cls P) s = []" using Nil.prems(3) r by (cases ys) simp_all
  have same: "s\<lparr>rest := ys\<rparr> = s" using r[symmetric] by simp
  show ?case
  proof (cases n)
    case 0
    then show ?thesis by (simp add: same)
  next
    case (Suc n')
    then show ?thesis by (simp add: mn none same del: ms.simps)
  qed
next
  case (Cons x xs)
  from Cons.prems obtain n' where n: "n = Suc n'" by (cases n) auto
  define s1 where "s1 = s\<lparr>prev := Some x, rest := xs @ ys\<rparr>"
  have f: "ms (Cls P) s = [s1]" using Cons.prems(1,2) by (simp add: s1_def)
  have r1: "rest s1 = xs @ ys" by (simp add: s1_def)
  have "\<exists>more. rep n' (mn - 1) None True (ms (Cls P)) s1
       = s1\<lparr>prev := (if xs = [] then prev s1 else Some (last xs)), rest := ys\<rparr> # more"
    using Cons.prems n by (intro Cons.IH[OF r1]) (auto simp: r1)
  then obtain more where m: "rep n' (mn - 1) None True (ms (Cls P)) s1
       = s1\<lparr>prev := (if xs = [] then prev s1 else Some (last xs)), rest := ys\<rparr> # more" by blast
  define fs where "fs = s\<lparr>prev := Some (last (x # xs)), rest := ys\<rparr>"
  have fin: "s1\<lparr>prev := (if xs = [] then prev s1 else Some (last xs)), rest := ys\<rparr> = fs"
    by (simp add: s1_def fs_def)
  have m': "rep n' (mn - Suc 0) None True (ms (Cls P)) s1 = fs # more"
    using m fin by simp
  have tgt: "s\<lparr>prev := (if x # xs = [] then prev s else Some (last (x # xs))), rest := ys\<rparr> = fs"
    by (simp add: fs_def)
  have len: "length (rest s1) \<noteq> length (rest s)" using Cons.prems(1) by (simp add: r1)
  show ?case unfolding tgt using m'
    by (cases "mn = 0") (simp_all add: n f len Let_def del: ms.simps)
qed

lemma match_at_greedy_run:
  assumes "\<forall>c\<in>set xs. P c" "case ys of [] \<Rightarrow> True | y # _ \<Rightarrow> \<not> P y" "mn \<le> length xs"
  shows "match_at (Rep mn None True (Cls P)) p (xs @ ys) = Some (length xs, (xs, []))"
proof -
  from rep_greedy_run[of "\<lparr>prev = p, rest = xs @ ys, caps = []\<rparr>" xs ys P mn "mn + length (xs @ ys)"] assms
  obtain more where "rep (mn + length (xs @ ys)) mn None True (ms (Cls P)) \<lparr>prev = p, rest = xs @ ys, caps = []\<rparr>
       = \<lparr>prev = (if xs = [] then p else Some (last xs)), rest = ys, caps = []\<rparr> # more"
    by auto
  then show ?thesis by (simp add: match_at_def)
qed

section \<open>Batch writes are atomic\<close>

lemma run_upsert_fails: "\<not> valid_page p \<Longrightarrow> \<exists>e. run_upsert now p s = (Some e, s)"
  by (auto simp: valid_page_def run_upsert_def split: option.splits)

lemma run_upsert_ok: "valid_page p \<Longrightarrow> fst (run_upsert now p s) = None"
  by (auto simp: valid_page_def run_upsert_def Let_def split: option.splits)

lemma upsert_loop_ok:
  "\<forall>(now, page)\<in>set batch. valid_page page \<Longrightarrow>
   upsert_loop batch s = (None, foldl (\<lambda>s (now, page). snd (upsertPage now page s)) s batch)"
proof (induction batch arbitrary: s)
  case Nil
  then show ?case by simp
next
  case (Cons a batch)
  obtain now page where a: "a = (now, page)" by (cases a)
  with Cons.prems have v: "valid_page page" by simp
  obtain s' where r: "run_upsert now page s = (None, s')"
    using run_upsert_ok[OF v, of now s] by (cases "run_upsert now page s") auto
  from Cons.prems have others: "\<forall>(now, page)\<in>set batch. valid_page page" by simp
  show ?case using Cons.IH[OF others, of s'] by (simp add: a r upsertPage_def)
qed

lemma upsert_loop_fails:
  "\<exists>(now, page)\<in>set batch. \<not> valid_page page \<Longrightarrow> \<exists>e s'. upsert_loop batch s = (Some e, s')"
proof (induction batch arbitrary: s)
  case Nil
  then show ?case by simp
next
  case (Cons a batch)
  obtain now page where a: "a = (now, page)" by (cases a)
  show ?case
  proof (cases "valid_page page")
    case True
    obtain s' where r: "run_upsert now page s = (None, s')"
      using run_upsert_ok[OF True, of now s] by (cases "run_upsert now page s") auto
    from Cons.prems True a have "\<exists>(now, page)\<in>set batch. \<not> valid_page page" by auto
    from Cons.IH[OF this, of s'] show ?thesis by (simp add: a r)
  next
    case False
    from run_upsert_fails[OF False, of now s] show ?thesis by (auto simp: a)
  qed
qed

text \<open>
  C4. \<open>upsertPages\<close> is atomic. When an element of the batch cannot be written, the
  call ends with the error and the database, and so the number of pages, is what it was
  before the call; when every element can be written, the call succeeds and the database
  is the one that the upserts of the batch, made one after the other, lead to.
\<close>

theorem upsertPages_atomic:
  "((\<exists>(now, page)\<in>set batch. \<not> valid_page page) \<longrightarrow>
      (\<exists>e. upsertPages batch s = (Some e, s)) \<and>
      getPageCount (snd (upsertPages batch s)) = getPageCount s) \<and>
   ((\<forall>(now, page)\<in>set batch. valid_page page) \<longrightarrow>
      upsertPages batch s =
        (None, foldl (\<lambda>s (now, page). snd (upsertPage now page s)) s batch))"
proof (intro conjI impI)
  assume f: "\<exists>(now, page)\<in>set batch. \<not> valid_page page"
  from upsert_loop_fails[OF f, of s] obtain e s' where "upsert_loop batch s = (Some e, s')" by blast
  then have u: "upsertPages batch s = (Some e, s)" by (simp add: upsertPages_def transaction_def)
  then show "\<exists>e. upsertPages batch s = (Some e, s)" by blast
  from u show "getPageCount (snd (upsertPages batch s)) = getPageCount s" by simp
next
  assume "\<forall>(now, page)\<in>set batch. valid_page page"
  from upsert_loop_ok[OF this, of s]
  show "upsertPages batch s = (None, foldl (\<lambda>s (now, page). snd (upsertPage now page s)) s batch)"
    by (simp add: upsertPages_def transaction_def)
qed

theorem upsertPages_atomic_witness:
  "(\<exists>(now, page)\<in>set [(str ''t1'', page1), (str ''t2'', page1\<lparr>title := None\<rparr>)]. \<not> valid_page page) \<and>
   upsertPages [(str ''t1'', page1), (str ''t2'', page1\<lparr>title := None\<rparr>)] (initialize new_file)
     = (Some (NotNull ''pages.title''), initialize new_file) \<and>
   fst (upsert_loop [(str ''t1'', page1), (str ''t2'', page1\<lparr>title := None\<rparr>)] (initialize new_file))
     = Some (NotNull ''pages.title'') \<and>
   getPageCount (snd (upsert_loop [(str ''t1'', page1), (str ''t2'', page1\<lparr>title := None\<rparr>)]
                        (initialize new_file))) = 1 \<and>
   valid_page page1 \<and> valid_page (page1\<lparr>title := Some (str ''Cooking'')\<rparr>) \<and>
   fst (upsertPages [(str ''t1'', page1), (str ''t2'', page1\<lparr>title := Some (str ''Cooking'')\<rparr>)]
          (initialize new_file)) = None \<and>
   getPageCount (snd (upsertPages [(str ''t1'', page1),
                                   (str ''t2'', page1\<lparr>title := Some (str ''Cooking'')\<rparr>)]
                        (initialize new_file))) = 2"
  using upsertPages_atomic[of "[(str ''t1'', page1), (str ''t2'', page1\<lparr>title := None\<rparr>)]"
                              "initialize new_file"]
        upsertPages_atomic[of "[(str ''t1'', page1), (str ''t2'', page1\<lparr>title := Some (str ''Cooking'')\<rparr>)]"
                              "initialize new_file"]
  by (simp add: page1_def db_defs str_def Let_def)

section \<open>Rows and titles\<close>

lemma find_title_None: "find (\<lambda>r. row_title r = t) rs = None \<longleftrightarrow> t \<notin> set (map row_title rs)"
  by (induction rs) auto

lemma find_title_Some:
  "find (\<lambda>r. row_title r = t) rs = Some old \<Longrightarrow> old \<in> set rs \<and> row_title old = t"
  by (induction rs) (auto split: if_splits)

lemma update_row_titles:
  "row_title new = t \<Longrightarrow> map row_title (update_row t (\<lambda>r. new) rs) = map row_title rs"
  by (induction rs) auto

lemma update_row_ids:
  "find (\<lambda>r. row_title r = t) rs = Some old \<Longrightarrow> row_id new = row_id old \<Longrightarrow>
   map row_id (update_row t (\<lambda>r. new) rs) = map row_id rs"
  by (induction rs) (auto split: if_splits)

lemma update_row_filter:
  "distinct (map row_title rs) \<Longrightarrow> t \<in> set (map row_title rs) \<Longrightarrow> row_title new = t \<Longrightarrow>
   filter (\<lambda>r. row_title r = t) (update_row t (\<lambda>r. new) rs) = [new]"
proof (induction rs)
  case Nil
  then show ?case by simp
next
  case (Cons r rs)
  show ?case
  proof (cases "row_title r = t")
    case True
    with Cons.prems have "t \<notin> set (map row_title rs)" by auto
    then have "filter (\<lambda>r. row_title r = t) rs = []" by (induction rs) auto
    with True Cons.prems show ?thesis by simp
  next
    case False
    with Cons show ?thesis by auto
  qed
qed

lemma run_upsert_pages:
  "pages (snd (run_upsert now \<lparr>title = Some t, content = Some c, url = Some u, categories = cs,
                               last_modified = m\<rparr> s)) =
     (case find (\<lambda>r. row_title r = to_text t) (pages s) of
        None \<Rightarrow> pages s @ [\<lparr>row_id = next_rowid (pages_seq s) (map row_id (pages s)),
                            row_title = to_text t, row_content = to_text c, row_url = to_text u,
                            row_categories = to_text (json_stringify cs),
                            row_last_modified = map_option to_text m, row_scraped_at = now\<rparr>]
      | Some old \<Rightarrow> update_row (to_text t) (\<lambda>r. old\<lparr>row_content := to_text c, row_url := to_text u,
                         row_categories := to_text (json_stringify cs),
                         row_last_modified := map_option to_text m,
                         row_scraped_at := now\<rparr>) (pages s))"
  by (simp add: run_upsert_def Let_def split: option.splits)

section \<open>Upserts on one title\<close>

lemma run_upsert_has_title:
  "to_text t \<in> set (map row_title (pages (snd (run_upsert now \<lparr>title = Some t, content = Some c, url = Some u,
       categories = cs, last_modified = m\<rparr> s))))"
proof (cases "find (\<lambda>r. row_title r = to_text t) (pages s)")
  case None
  then show ?thesis by (simp add: run_upsert_pages)
next
  case (Some old)
  from find_title_Some[OF Some] have o: "old \<in> set (pages s)" "row_title old = to_text t" by auto
  then have "to_text t \<in> set (map row_title (pages s))" by force
  with Some o show ?thesis by (simp add: run_upsert_pages update_row_titles)
qed

lemma run_upsert_distinct:
  assumes "distinct (map row_title (pages s))"
  shows "distinct (map row_title (pages (snd (run_upsert now \<lparr>title = Some t, content = Some c,
       url = Some u, categories = cs, last_modified = m\<rparr> s))))"
proof (cases "find (\<lambda>r. row_title r = to_text t) (pages s)")
  case None
  then have "to_text t \<notin> set (map row_title (pages s))" by (simp add: find_title_None)
  with assms show ?thesis by (simp add: run_upsert_pages None)
next
  case (Some old)
  from find_title_Some[OF Some] have o: "row_title old = to_text t" by auto
  with assms show ?thesis by (simp add: run_upsert_pages Some update_row_titles)
qed

text \<open>
  C1, as amended. The conflict target of the upsert is the title as it is stored, compared
  exactly: two titles conflict when their TEXT is the same. That is so for equal titles,
  and for titles that differ only in surrogates without a partner, which are all stored
  as U+FFFD. In a database whose titles are distinct, as the UNIQUE constraint keeps
  them, a second upsert whose title has the TEXT of the first replaces the document of
  the first: the number of pages is that after the first call, the rows keep their ids
  and titles, one row has the title, and its content, url, categories, last_modified and
  scraped_at are the stored values of the second call.
\<close>

theorem upsert_same_title_replaces:
  assumes "distinct (map row_title (pages s))" and "to_text t1 = to_text t2"
  shows "let s1 = snd (upsertPage n1 \<lparr>title = Some t1, content = Some c1, url = Some u1,
                                      categories = cs1, last_modified = m1\<rparr> s);
             s2 = snd (upsertPage n2 \<lparr>title = Some t2, content = Some c2, url = Some u2,
                                      categories = cs2, last_modified = m2\<rparr> s1)
         in getPageCount s2 = getPageCount s1 \<and>
            map row_id (pages s2) = map row_id (pages s1) \<and>
            map row_title (pages s2) = map row_title (pages s1) \<and>
            (\<exists>r. filter (\<lambda>r. row_title r = to_text t2) (pages s2) = [r] \<and>
                 row_content r = to_text c2 \<and> row_url r = to_text u2 \<and>
                 row_categories r = to_text (json_stringify cs2) \<and>
                 row_last_modified r = map_option to_text m2 \<and> row_scraped_at r = n2)"
proof -
  define t where "t = to_text t2"
  define s1 where "s1 = snd (run_upsert n1 \<lparr>title = Some t1, content = Some c1, url = Some u1,
                                      categories = cs1, last_modified = m1\<rparr> s)"
  define s2 where "s2 = snd (run_upsert n2 \<lparr>title = Some t2, content = Some c2, url = Some u2,
                                      categories = cs2, last_modified = m2\<rparr> s1)"
  have d1: "distinct (map row_title (pages s1))"
    unfolding s1_def by (rule run_upsert_distinct[OF assms(1)])
  have t1: "t \<in> set (map row_title (pages s1))"
    unfolding s1_def t_def assms(2)[symmetric] by (rule run_upsert_has_title)
  then obtain old where f: "find (\<lambda>r. row_title r = t) (pages s1) = Some old"
    using find_title_None[of t "pages s1"] by (cases "find (\<lambda>r. row_title r = t) (pages s1)") auto
  from find_title_Some[OF f] have o: "row_title old = t" by simp
  define new where "new = old\<lparr>row_content := to_text c2, row_url := to_text u2,
                         row_categories := to_text (json_stringify cs2),
                         row_last_modified := map_option to_text m2, row_scraped_at := n2\<rparr>"
  have nt: "row_title new = t" and ni: "row_id new = row_id old" by (simp_all add: new_def o)
  have p2: "pages s2 = update_row t (\<lambda>r. new) (pages s1)"
    unfolding s2_def new_def by (simp add: run_upsert_pages f[unfolded t_def] t_def)
  have "length (pages s2) = length (pages s1)"
    using arg_cong[OF update_row_titles[OF nt, of "pages s1"], of length] by (simp add: p2)
  moreover have "map row_id (pages s2) = map row_id (pages s1)"
    by (simp add: p2 update_row_ids[OF f ni])
  moreover have "map row_title (pages s2) = map row_title (pages s1)"
    by (simp add: p2 update_row_titles[OF nt])
  moreover have "filter (\<lambda>r. row_title r = t) (pages s2) = [new]"
    by (simp add: p2 update_row_filter[OF d1 t1 nt])
  moreover have "row_content new = to_text c2 \<and> row_url new = to_text u2 \<and>
                 row_categories new = to_text (json_stringify cs2) \<and>
                 row_last_modified new = map_option to_text m2 \<and> row_scraped_at new = n2"
    by (simp add: new_def)
  ultimately show ?thesis
    unfolding Let_def upsertPage_def s1_def[symmetric] s2_def[symmetric] getPageCount_def
              t_def[symmetric] by blast
qed

theorem upsert_same_title_replaces_witness:
  "distinct (map row_title (pages (initialize new_file))) \<and>
   to_text (str ''Fishing'') = to_text (str ''Fishing'') \<and>
   (let s1 = snd (upsertPage (str ''t1'') \<lparr>title = Some (str ''Fishing''), content = Some (str ''old''),
                     url = Some (str ''/a''), categories = [str ''Activities''],
                     last_modified = None\<rparr> (initialize new_file));
        s2 = snd (upsertPage (str ''t2'') \<lparr>title = Some (str ''Fishing''), content = Some (str ''new''),
                     url = Some (str ''/b''), categories = [str ''Updated''],
                     last_modified = Some (str ''2024'')\<rparr> s1)
    in getPageCount s2 = getPageCount s1 \<and>
       map row_id (pages s2) = map row_id (pages s1) \<and>
       map row_title (pages s2) = map row_title (pages s1) \<and>
       (\<exists>r. filter (\<lambda>r. row_title r = to_text (str ''Fishing'')) (pages s2) = [r] \<and>
            row_content r = to_text (str ''new'') \<and> row_url r = to_text (str ''/b'') \<and>
            row_categories r = to_text (json_stringify [str ''Updated'']) \<and>
            row_last_modified r = map_option to_text (Some (str ''2024'')) \<and>
            row_scraped_at r = str ''t2'')) \<and>
   getPageCount (snd (upsertPage (str ''t2'') \<lparr>title = Some (str ''Fishing''), content = Some (str ''new''),
                     url = Some (str ''/b''), categories = [str ''Updated''],
                     last_modified = Some (str ''2024'')\<rparr>
       (snd (upsertPage (str ''t1'') \<lparr>title = Some (str ''Fishing''), content = Some (str ''old''),
                     url = Some (str ''/a''), categories = [str ''Activities''],
                     last_modified = None\<rparr> (initialize new_file))))) = 1 \<and>
   to_text [55296] = to_text [55297] \<and>
   map row_title (pages (snd (upsertPage (str ''t2'') (page1\<lparr>title := Some [55297]\<rparr>)
        (snd (upsertPage (str ''t1'') (page1\<lparr>title := Some [55296]\<rparr>) (initialize new_file))))))
     = [[65533]]"
  using upsert_same_title_replaces[of "initialize new_file" "str ''Fishing''" "str ''Fishing''"
          "str ''t1''" "str ''old''" "str ''/a''" "[str ''Activities'']" None "str ''t2''" "str ''new''"
          "str ''/b''" "[str ''Updated'']" "Some (str ''2024'')"]
  by (simp add: page1_def db_defs str_def Let_def)

text \<open>
  C1 as stated fails: two titles that differ only in the case of a letter do not
  conflict, and the second upsert adds a second document.
\<close>

theorem upsert_case_variant_counterexample:
  "nocase_eq (to_text (str ''Fishing'')) (to_text (str ''fishing'')) \<and>
   getPageCount (snd (upsertPage (str ''t1'') page1 (initialize new_file))) = 1 \<and>
   getPageCount (snd (upsertPage (str ''t2'') (page1\<lparr>title := Some (str ''fishing'')\<rparr>)
                        (snd (upsertPage (str ''t1'') page1 (initialize new_file))))) = 2 \<and>
   map row_title (pages (snd (upsertPage (str ''t2'') (page1\<lparr>title := Some (str ''fishing'')\<rparr>)
                        (snd (upsertPage (str ''t1'') page1 (initialize new_file))))))
     = [str ''Fishing'', str ''fishing'']"
  by (simp add: page1_def db_defs str_def Let_def upper_ascii_def is_lower_def)

section \<open>The index follows the table\<close>

lemma find_in_mset:
  "find (\<lambda>r. row_title r = t) rs = Some old \<Longrightarrow> g old \<in># image_mset g (mset rs)"
  using find_title_Some by fastforce

lemma update_row_mset:
  "find (\<lambda>r. row_title r = t) rs = Some old \<Longrightarrow>
   image_mset g (mset (update_row t (\<lambda>r. new) rs)) =
     add_mset (g new) (image_mset g (mset rs) - {#g old#})"
proof (induction rs)
  case Nil
  then show ?case by simp
next
  case (Cons r rs)
  show ?case
  proof (cases "row_title r = t")
    case True
    with Cons.prems show ?thesis by simp
  next
    case False
    with Cons.prems have f: "find (\<lambda>r. row_title r = t) rs = Some old" by simp
    from find_in_mset[OF f, of g] have "g old \<in># image_mset g (mset rs)" .
    with Cons.IH[OF f] False show ?thesis by simp
  qed
qed

lemma run_upsert_synced: "fts_synced s \<Longrightarrow> fts_synced (snd (run_upsert now p s))"
proof -
  assume a: "fts_synced s"
  then obtain idx where i: "pages_fts s = Some idx" "mset idx = mset (map fts_of_row (pages s))"
    by (auto simp: fts_synced_def split: option.splits)
  show ?thesis
  proof (cases "valid_page p")
    case False
    from run_upsert_fails[OF False, of now s] a show ?thesis by auto
  next
    case True
    then obtain t c u where p: "title p = Some t" "content p = Some c" "url p = Some u"
      by (auto simp: valid_page_def)
    show ?thesis
    proof (cases "find (\<lambda>r. row_title r = to_text t) (pages s)")
      case None
      then show ?thesis
        by (simp add: run_upsert_def p Let_def fts_synced_def i trigger_ai_def)
    next
      case (Some old)
      show ?thesis
        by (simp add: run_upsert_def p Let_def fts_synced_def i trigger_au_def Some
              update_row_mset[OF Some])
    qed
  qed
qed

lemma upsert_loop_synced: "fts_synced s \<Longrightarrow> fts_synced (snd (upsert_loop batch s))"
proof (induction batch arbitrary: s)
  case Nil
  then show ?case by simp
next
  case (Cons a batch)
  obtain now page where a: "a = (now, page)" by (cases a)
  from run_upsert_synced[OF Cons.prems, of now page]
  have s': "fts_synced (snd (run_upsert now page s))" .
  show ?case
  proof (cases "run_upsert now page s")
    case (Pair e s')
    with s' have "fts_synced s'" by simp
    with Cons.IH[of s'] Pair show ?thesis by (cases e) (simp_all add: a)
  qed
qed

lemma apply_op_synced: "fts_synced s \<Longrightarrow> fts_synced (apply_op s op)"
proof (cases op)
  case (UpsertPage now page)
  assume "fts_synced s"
  then show ?thesis using run_upsert_synced[of s now page] by (simp add: UpsertPage upsertPage_def)
next
  case (UpsertPages batch)
  assume a: "fts_synced s"
  show ?thesis using upsert_loop_synced[OF a, of batch] a
    by (cases "upsert_loop batch s")
       (auto simp: UpsertPages upsertPages_def transaction_def split: option.splits)
qed

lemma run_ops_synced: "fts_synced s \<Longrightarrow> fts_synced (run_ops ops s)"
  unfolding run_ops_def by (induction ops arbitrary: s) (simp_all add: apply_op_synced)

lemma initialize_synced: "pages_fts f = None \<Longrightarrow> fts_synced (initialize f)"
  by (simp add: initialize_def fts_synced_def)

lemma initialize_synced': "fts_synced f \<Longrightarrow> fts_synced (initialize f)"
  by (auto simp add: initialize_def fts_synced_def split: option.splits)

text \<open>
  C5. In a database opened by the constructor, on a file without the index or with an
  index in sync, the entries of the full-text index are, after every sequence of
  \<open>upsertPage\<close> and \<open>upsertPages\<close> calls, exactly the (id, title, content) of the
  rows of \<^verbatim>\<open>pages\<close>: every document is indexed under its current title and content,
  and nothing of a replaced content is left.
\<close>

theorem fts_index_in_sync:
  assumes "pages_fts f = None \<or> fts_synced f"
  shows "fts_synced (run_ops ops (initialize f))"
  using assms initialize_synced initialize_synced' run_ops_synced by blast


theorem fts_index_in_sync_witness:
  "pages_fts new_file = None \<and>
   fts_synced (run_ops [UpsertPage (str ''t1'') page1,
                        UpsertPages [(str ''t2'', page1\<lparr>title := Some (str ''Cooking'')\<rparr>),
                                     (str ''t3'', page1\<lparr>content := Some (str ''a hobby'')\<rparr>)]]
                 (initialize new_file)) \<and>
   pages_fts (run_ops [UpsertPage (str ''t1'') page1,
                        UpsertPages [(str ''t2'', page1\<lparr>title := Some (str ''Cooking'')\<rparr>),
                                     (str ''t3'', page1\<lparr>content := Some (str ''a hobby'')\<rparr>)]]
                 (initialize new_file))
     = Some [(2, str ''Cooking'', str ''Fishing is an activity''), (1, str ''Fishing'', str ''a hobby'')]"
  using fts_index_in_sync[of new_file "[UpsertPage (str ''t1'') page1,
                        UpsertPages [(str ''t2'', page1\<lparr>title := Some (str ''Cooking'')\<rparr>),
                                     (str ''t3'', page1\<lparr>content := Some (str ''a hobby'')\<rparr>)]]"]
  by (simp add: page1_def db_defs str_def Let_def run_ops_def)

section \<open>Template resolution is bounded\<close>

lemma extractTemplateText_empty: "extractTemplateText [] = []"
  by (simp add: rx_defs parse_defs)

lemma template_no_match_open:
  "match_at template_rx p (123 # 123 # 123 # r) = None"
  by (simp add: rx_defs template_rx_def)

lemma template_no_match_close: "match_at template_rx p (125 # r) = None"
  by (simp add: rx_defs template_rx_def)

lemma template_match_empty:
  "match_at template_rx p (123 # 123 # 125 # 125 # r) = Some (4, ([123, 123, 125, 125], [(1, [])]))"
  by (simp add: rx_defs template_rx_def)

lemma replace_go_close:
  "replace_go template_rx f p 0 (replicate m 125) = replicate m 125"
proof (induction m arbitrary: p)
  case 0
  show ?case by (simp add: rx_defs template_rx_def)
next
  case (Suc m)
  then show ?case by (simp add: template_no_match_close)
qed

lemma replace_go_open:
  "replace_go template_rx (\<lambda>m. extractTemplateText (grp 1 m)) p 0
     (replicate k 123 @ 123 # 123 # 125 # 125 # replicate m 125)
   = replicate k 123 @ replicate m 125"
proof (induction k arbitrary: p)
  case 0
  show ?case
    by (simp add: template_match_empty grp_def extractTemplateText_empty replace_go_numeral
          replace_go_close)
next
  case (Suc k)
  have "replicate (Suc k) (123::nat) @ 123 # 123 # 125 # 125 # replicate m 125
        = 123 # 123 # 123 # (replicate k 123 @ 125 # 125 # replicate m 125)"
    by (induction k) simp_all
  then have "match_at template_rx p (replicate (Suc k) 123 @ 123 # 123 # 125 # 125 # replicate m 125) = None"
    by (simp only: template_no_match_open)
  with Suc show ?case by simp
qed

lemma template_pass_nest: "template_pass (nest (Suc n)) = nest n"
proof -
  have "replicate k (123::nat) @ [123, 123] = 123 # 123 # replicate k 123" for k
    by (induction k) simp_all
  then have "nest (Suc n) = replicate (2 * n) 123 @ 123 # 123 # 125 # 125 # replicate (2 * n) 125"
    by (simp add: nest_def)
  then show ?thesis
    by (simp only: template_pass_def replace_all_def replace_go_open) (simp add: nest_def)
qed

lemma nest_neq: "nest (Suc n) \<noteq> nest n"
proof
  assume "nest (Suc n) = nest n"
  then have "length (nest (Suc n)) = length (nest n)" by simp
  then show False by (simp add: nest_def)
qed

lemma nest_neq_Nil: "nest (Suc n) \<noteq> []"
  by (simp add: nest_def)

lemma loop_nest:
  "i + d = maxIterations \<Longrightarrow> pv \<noteq> nest (n + d) \<Longrightarrow>
   processTemplates_loop (nest (n + d)) pv i = (nest n, maxIterations)"
proof (induction d arbitrary: i pv)
  case 0
  then show ?case by (subst processTemplates_loop.simps) simp
next
  case (Suc d)
  from Suc.prems have lt: "i < maxIterations" and i': "Suc i + d = maxIterations" by simp_all
  have ne: "nest (n + Suc d) \<noteq> nest (n + d)" using nest_neq[of "n + d"] by simp
  have "processTemplates_loop (nest (n + Suc d)) pv i
        = processTemplates_loop (template_pass (nest (n + Suc d))) (nest (n + Suc d)) (i + 1)"
    using Suc.prems(2) lt by (subst processTemplates_loop.simps) simp
  also have "template_pass (nest (n + Suc d)) = nest (n + d)"
    using template_pass_nest[of "n + d"] by simp
  also have "processTemplates_loop (nest (n + d)) (nest (n + Suc d)) (i + 1) = (nest n, maxIterations)"
    using Suc.IH[of "Suc i" "nest (n + Suc d)"] i' ne by simp
  finally show ?case .
qed

lemma processTemplates_nest: "processTemplates (nest (Suc n + 50)) = nest (Suc n)"
  using loop_nest[of 0 50 "[]" "Suc n"] nest_neq_Nil[of "n + 50"]
  by (simp add: processTemplates_def maxIterations_def)

lemma loop_count:
  "i \<le> maxIterations \<Longrightarrow> snd (processTemplates_loop tx pv i) \<le> maxIterations"
proof (induction tx pv i rule: processTemplates_loop.induct)
  case (1 tx previous iterations)
  show ?case
  proof (cases "tx \<noteq> previous \<and> iterations < maxIterations")
    case True
    with "1.IH" "1.prems" show ?thesis by (subst processTemplates_loop.simps) simp
  next
    case False
    with "1.IH" "1.prems" show ?thesis by (subst processTemplates_loop.simps) simp
  qed
qed

lemma loop_passes:
  "\<exists>k. snd (processTemplates_loop tx pv i) = i + k \<and>
       fst (processTemplates_loop tx pv i) = (template_pass ^^ k) tx"
proof (induction tx pv i rule: processTemplates_loop.induct)
  case (1 tx previous iterations)
  show ?case
  proof (cases "tx \<noteq> previous \<and> iterations < maxIterations")
    case True
    from "1.IH"[OF True] obtain k where
      k: "snd (processTemplates_loop (template_pass tx) tx (iterations + 1)) = iterations + 1 + k"
         "fst (processTemplates_loop (template_pass tx) tx (iterations + 1)) = (template_pass ^^ k) (template_pass tx)"
      by blast
    have e: "processTemplates_loop tx previous iterations
             = processTemplates_loop (template_pass tx) tx (iterations + 1)"
      using True by (subst processTemplates_loop.simps) simp
    show ?thesis
      using k by (intro exI[of _ "Suc k"]) (simp add: e funpow_swap1)
  next
    case False
    then have "processTemplates_loop tx previous iterations = (tx, iterations)"
      by (subst processTemplates_loop.simps) auto
    then show ?thesis by (intro exI[of _ 0]) simp
  qed
qed

lemma loop_fixpoint:
  "snd (processTemplates_loop tx pv i) < maxIterations \<Longrightarrow> template_pass pv = tx \<Longrightarrow>
   template_pass (fst (processTemplates_loop tx pv i)) = fst (processTemplates_loop tx pv i)"
proof (induction tx pv i rule: processTemplates_loop.induct)
  case (1 tx previous iterations)
  show ?case
  proof (cases "tx \<noteq> previous \<and> iterations < maxIterations")
    case True
    have e: "processTemplates_loop tx previous iterations
             = processTemplates_loop (template_pass tx) tx (iterations + 1)"
      using True by (subst processTemplates_loop.simps) simp
    from "1.prems"(1) have lt:
      "snd (processTemplates_loop (template_pass tx) tx (iterations + 1)) < maxIterations"
      by (simp add: e)
    from "1.IH"[OF True lt] show ?thesis by (simp add: e)
  next
    case False
    then have e: "processTemplates_loop tx previous iterations = (tx, iterations)"
      by (subst processTemplates_loop.simps) auto
    with "1.prems"(1) have "iterations < maxIterations" by simp
    with False have "tx = previous" by simp
    with "1.prems"(2) e show ?thesis by simp
  qed
qed

lemma template_pass_Nil: "template_pass [] = []"
  by (simp add: rx_defs parse_defs)

text \<open>
  C6. Template resolution makes at most 50 passes on every input, and its result is the
  input after that many passes: the function is total and raises nothing. When it stops
  before the 50th pass, the result is a fixed point of the pass. When the cap is reached,
  what is left stays in the output: a template nested \<open>n + 51\<close> deep comes out after
  exactly 50 passes as the template nested \<open>n + 1\<close> deep.
\<close>

theorem processTemplates_bounded:
  "snd (processTemplates_loop text [] 0) \<le> 50 \<and>
   processTemplates text = (template_pass ^^ snd (processTemplates_loop text [] 0)) text \<and>
   (snd (processTemplates_loop text [] 0) < 50 \<longrightarrow>
      template_pass (processTemplates text) = processTemplates text) \<and>
   processTemplates (nest (Suc n + 50)) = nest (Suc n) \<and>
   snd (processTemplates_loop (nest (Suc n + 50)) [] 0) = 50"
proof (intro conjI impI)
  show "snd (processTemplates_loop text [] 0) \<le> 50"
    using loop_count[of 0 "text" "[]"] by (simp add: maxIterations_def)
  from loop_passes[of "text" "[]" 0]
  show "processTemplates text = (template_pass ^^ snd (processTemplates_loop text [] 0)) text"
    by (auto simp: processTemplates_def)
  show "processTemplates (nest (Suc n + 50)) = nest (Suc n)" by (rule processTemplates_nest)
  show "snd (processTemplates_loop (nest (Suc n + 50)) [] 0) = 50"
    using loop_nest[of 0 50 "[]" "Suc n"] nest_neq_Nil[of "n + 50"]
    by (simp add: maxIterations_def)
next
  assume "snd (processTemplates_loop text [] 0) < 50"
  then have lt: "snd (processTemplates_loop text [] 0) < maxIterations"
    by (simp add: maxIterations_def)
  show "template_pass (processTemplates text) = processTemplates text"
  proof (cases "text = []")
    case True
    have "processTemplates_loop [] [] 0 = ([], 0)"
      by (subst processTemplates_loop.simps) simp
    with True show ?thesis by (simp add: processTemplates_def template_pass_Nil)
  next
    case False
    then have e: "processTemplates_loop text [] 0 = processTemplates_loop (template_pass text) text 1"
      by (subst processTemplates_loop.simps) (simp add: maxIterations_def)
    from lt have "snd (processTemplates_loop (template_pass text) text 1) < maxIterations"
      by (simp add: e)
    from loop_fixpoint[OF this] show ?thesis by (simp add: processTemplates_def e)
  qed
qed


theorem processTemplates_bounded_witness:
  "snd (processTemplates_loop (str ''{{outer|{{inner}}}}'') [] 0) = 3 \<and>
   processTemplates (str ''{{outer|{{inner}}}}'') = [] \<and>
   template_pass (processTemplates (str ''{{outer|{{inner}}}}'')) = processTemplates (str ''{{outer|{{inner}}}}'') \<and>
   processTemplates (nest 51) = str ''{{}}'' \<and>
   snd (processTemplates_loop (nest 51) [] 0) = 50 \<and>
   rx_test template_rx (processTemplates (nest 51))"
proof -
  note t = processTemplates_bounded[of "str ''{{outer|{{inner}}}}''" 0]
  have a: "processTemplates_loop (str ''{{outer|{{inner}}}}'') [] 0 = ([], 3)"
    by (simp add: rx_defs parse_defs processTemplates_loop.simps)
  have b: "nest (Suc 0) = str ''{{}}''"
    by (simp add: nest_def str_def numeral_2_eq_2)
  have c: "rx_test template_rx (str ''{{}}'')"
    by (simp add: rx_defs template_rx_def rx_test_def rx_match_def)
  from t a b c show ?thesis by (simp add: processTemplates_def)
qed

section \<open>Queries without tokens\<close>

lemma split_go_skip: "k = length t \<Longrightarrow> split_go r p k acc t = [acc]"
  by (induction t arbitrary: k p) auto

lemma split_spaces:
  "split_rx (plus space) (replicate n 32) = (if n = 0 then [[]] else [[], []])"
proof (cases n)
  case 0
  then show ?thesis by (simp add: split_rx_def match_at_def plus_def space_def)
next
  case (Suc m)
  have "match_at (Rep 1 None True (Cls is_space)) None (replicate (Suc m) 32 @ [])
        = Some (length (replicate (Suc m) (32::nat)), (replicate (Suc m) 32, []))"
    by (rule match_at_greedy_run) (simp_all add: is_space_def)
  then have m: "match_at (plus space) None (32 # replicate m 32) = Some (Suc m, (32 # replicate m 32, []))"
    by (simp add: plus_def space_def)
  show ?thesis
    by (simp add: Suc split_rx_def m split_go_skip)
qed

lemma query_tokens_disallowed:
  assumes "\<forall>c\<in>set q. \<not> (is_word c \<or> is_space c \<or> c = 45)"
  shows "query_tokens q = []"
proof -
  have "replace_all (Cls (\<lambda>x. \<not> (is_word x \<or> is_space x \<or> x = 45))) (\<lambda>m. str '' '') q
        = replicate (length q) 32"
    using replace_all_Cls_const[of q "\<lambda>x. \<not> (is_word x \<or> is_space x \<or> x = 45)" 32] assms
    by (simp add: str_def)
  then show ?thesis by (simp add: query_tokens_def split_spaces)
qed

lemma sanitize_nonempty: "query_tokens q \<noteq> [] \<Longrightarrow> sanitizeFtsQuery q \<noteq> []"
  by (simp add: sanitizeFtsQuery_def Let_def str_def)

text \<open>
  C8. A query that sanitises to no token is answered with the empty sequence, whatever
  the store holds, and no query reaches the index; \<open>run_query\<close> is not called, so
  nothing can be raised. That is the case of the empty string and of every string made
  only of characters other than word characters, whitespace and the hyphen. A query with
  a token does reach the index.
\<close>

theorem search_empty_query:
  "(query_tokens q = [] \<longrightarrow> searchPages run_query shape q limit s = ([], Inr [])) \<and>
   ((\<forall>c\<in>set q. \<not> (is_word c \<or> is_space c \<or> c = 45)) \<longrightarrow> query_tokens q = []) \<and>
   (query_tokens q \<noteq> [] \<longrightarrow> fst (searchPages run_query shape q limit s) = [sanitizeFtsQuery q])"
  using query_tokens_disallowed[of q] sanitize_nonempty[of q]
  by (auto simp: searchPages_def sanitizeFtsQuery_def Let_def)


theorem search_empty_query_witness:
  "query_tokens (str '''') = [] \<and>
   list_all (\<lambda>c. \<not> (is_word c \<or> is_space c \<or> c = 45)) (str ''@#$%^&*'') \<and>
   query_tokens (str ''@#$%^&*'') = [] \<and>
   searchPages (\<lambda>s q l. Inl (NotNull ''index'')) (\<lambda>r. r) (str ''@#$%^&*'') 5 (initialize new_file)
     = ([], Inr ([] :: nat list)) \<and>
   query_tokens (str ''fish rod'') = [str ''fish'', str ''rod''] \<and>
   sanitizeFtsQuery (str ''fish rod'')
     = str ''{title content} : '' @ [34] @ str ''fish'' @ [34, 32, 34] @ str ''rod'' @ [34] \<and>
   searchPages (\<lambda>s q l. Inl (NotNull ''index'')) (\<lambda>r. r) (str ''fish rod'') 5 (initialize new_file)
     = ([sanitizeFtsQuery (str ''fish rod'')], Inl (NotNull ''index'') :: db_error + nat list)"
proof -
  note t1 = search_empty_query[of "str ''@#$%^&*''" "\<lambda>s q l. Inl (NotNull ''index'')" "\<lambda>r. r" 5
              "initialize new_file"]
  note t2 = search_empty_query[of "str ''fish rod''" "\<lambda>s q l. Inl (NotNull ''index'')" "\<lambda>r. r" 5
              "initialize new_file"]
  have a: "query_tokens (str '''') = []"
    by (simp add: query_tokens_def rx_defs)
  have b: "list_all (\<lambda>c. \<not> (is_word c \<or> is_space c \<or> c = 45)) (str ''@#$%^&*'')"
    by (simp add: rx_defs)
  have c: "query_tokens (str ''fish rod'') = [str ''fish'', str ''rod'']"
    by (simp add: query_tokens_def rx_defs)
  from t1 t2 a b c show ?thesis
    by (simp add: searchPages_def sanitizeFtsQuery_def Let_def list_all_iff str_def)
qed

section \<open>Strings as TEXT\<close>

lemma valid_text_Cons: "valid_text (c # t) \<longleftrightarrow> \<not> is_high c \<and> \<not> is_low c \<and> c < 1114112 \<and> valid_text t"
  by (simp add: valid_text_def)

lemma valid_text_Nil: "valid_text []"
  by (simp add: valid_text_def)

lemma not_lone_valid: "\<not> lone c \<Longrightarrow> \<not> is_high c \<and> \<not> is_low c \<and> c < 1114112"
  by (simp add: lone_def)

lemma replacement_valid: "\<not> is_high 65533 \<and> \<not> is_low 65533 \<and> (65533::nat) < 1114112"
  by (simp add: is_high_def is_low_def)

lemma pair_valid:
  assumes "is_high c" "is_low d"
  shows "\<not> is_high (65536 + (c - 55296) * 1024 + (d - 56320))
       \<and> \<not> is_low (65536 + (c - 55296) * 1024 + (d - 56320))
       \<and> 65536 + (c - 55296) * 1024 + (d - 56320) < 1114112"
proof -
  have "c - 55296 \<le> 1023" using assms(1) unfolding is_high_def by linarith
  moreover have "d - 56320 \<le> 1023" using assms(2) unfolding is_low_def by linarith
  ultimately have "(c - 55296) * 1024 \<le> 1023 * 1024" "d - 56320 \<le> 1023" by simp_all
  then have "65536 + (c - 55296) * 1024 + (d - 56320) < 1114112" by linarith
  moreover have "65536 \<le> 65536 + (c - 55296) * 1024 + (d - 56320)" by simp
  ultimately show ?thesis unfolding is_high_def is_low_def by linarith
qed

lemma to_text_valid: "valid_text (to_text s)"
proof (induction s rule: to_text.induct)
  case 1
  show ?case by (simp add: valid_text_Nil)
next
  case (2 c)
  show ?case using not_lone_valid[of c] replacement_valid
    by (simp add: valid_text_Cons valid_text_Nil)
next
  case (3 c d ds)
  show ?case
  proof (cases "is_high c \<and> is_low d")
    case True
    with "3.IH"(1)[OF True] pair_valid[of c d] show ?thesis by (simp add: valid_text_Cons)
  next
    case nopair: False
    show ?thesis
    proof (cases "lone c")
      case True
      with "3.IH"(2)[OF nopair True] nopair replacement_valid show ?thesis
        by (auto simp add: valid_text_Cons)
    next
      case False
      with "3.IH"(3)[OF nopair False] nopair not_lone_valid[OF False] show ?thesis
        by (auto simp add: valid_text_Cons)
    qed
  qed
qed


lemma to_text_unit:
  "\<not> lone c \<Longrightarrow> to_text (c # r) = c # to_text r"
proof (cases r)
  case Nil
  assume "\<not> lone c"
  with Nil show ?thesis by simp
next
  case (Cons d ds)
  assume n: "\<not> lone c"
  then have "\<not> is_high c" by (simp add: lone_def)
  with n Cons show ?thesis by simp
qed

lemma to_text_pair:
  "is_high h \<Longrightarrow> is_low l \<Longrightarrow>
   to_text (h # l # r) = (65536 + (h - 55296) * 1024 + (l - 56320)) # to_text r"
  by simp

lemma to_text_enc:
  assumes "\<not> is_high c" "\<not> is_low c" "c < 1114112"
  shows "to_text ((if c < 65536 then [c]
                   else [55296 + (c - 65536) div 1024, 56320 + (c - 65536) mod 1024]) @ r)
         = c # to_text r"
proof (cases "c < 65536")
  case True
  with assms have nl: "\<not> lone c" by (simp add: lone_def)
  from to_text_unit[OF nl, of r] True show ?thesis by simp
next
  case False
  define k where "k = c - 65536"
  have c: "c = 65536 + k" using False unfolding k_def by linarith
  have kb: "k < 1024 * 1024" using assms(3) unfolding c by linarith
  have d: "k div 1024 < 1024" using kb by (simp add: less_mult_imp_div_less)
  have m: "k mod 1024 < 1024" by simp
  have h: "is_high (55296 + k div 1024)" unfolding is_high_def using d by linarith
  have l: "is_low (56320 + k mod 1024)" unfolding is_low_def using m by linarith
  have "k div 1024 * 1024 + k mod 1024 = k" by simp
  then have e: "65536 + (55296 + k div 1024 - 55296) * 1024 + (56320 + k mod 1024 - 56320) = c"
    unfolding c by simp
  have "to_text ((55296 + k div 1024) # (56320 + k mod 1024) # r) = c # to_text r"
    unfolding to_text_pair[OF h l] e ..
  with False show ?thesis by (simp add: k_def)
qed

lemma to_from_text: "valid_text t \<Longrightarrow> to_text (from_text t) = t"
proof (induction t)
  case Nil
  then show ?case by (simp add: from_text_def)
next
  case (Cons c t)
  then have v: "\<not> is_high c" "\<not> is_low c" "c < 1114112" and vt: "valid_text t"
    by (simp_all add: valid_text_Cons)
  have "from_text (c # t) = (if c < 65536 then [c]
                   else [55296 + (c - 65536) div 1024, 56320 + (c - 65536) mod 1024]) @ from_text t"
    by (simp add: from_text_def)
  then show ?case using to_text_enc[OF v, of "from_text t"] Cons.IH[OF vt] by simp
qed


lemma from_text_bmp: "\<forall>x\<in>set t. x < 65536 \<Longrightarrow> from_text t = t"
  by (induction t) (simp_all add: from_text_def)

section \<open>Sample stores\<close>

lemma store3_pages:
  "pages store3 =
     [\<lparr>row_id = 1, row_title = str ''Fishing'', row_content = str ''Fishing is an activity'',
       row_url = str ''/wiki/Fishing'', row_categories = str ''[\"Activities\"]'',
       row_last_modified = None, row_scraped_at = str ''t1''\<rparr>,
      \<lparr>row_id = 2, row_title = str ''Cooking'', row_content = str ''Cooking prepares food'',
       row_url = str ''/wiki/Cooking'', row_categories = str ''[\"Activities\",\"Food\"]'',
       row_last_modified = Some (str ''2024-02-20''), row_scraped_at = str ''t2''\<rparr>,
      \<lparr>row_id = 3, row_title = str ''Fishing Rod'', row_content = str ''A tool used for fishing'',
       row_url = str ''/wiki/Fishing_Rod'', row_categories = str ''[\"Items\",\"Tools\"]'',
       row_last_modified = Some (str ''2024-01-10''), row_scraped_at = str ''t3''\<rparr>]"
  by (simp add: store3_def page1_def page2_def page3_def db_defs Let_def str_def)

lemma store3_row_cats:
  "map row_cats (pages store3)
     = [[str ''Activities''], [str ''Activities'', str ''Food''], [str ''Items'', str ''Tools'']]"
  by (simp add: store3_pages row_cats_def json_parse_def db_defs str_def is_json_ws_def
        parse_elements_numeral)

lemma store_sur_pages:
  "pages store_sur =
     [\<lparr>row_id = 1, row_title = str ''Fishing'', row_content = str ''Fishing is an activity'',
       row_url = str ''/wiki/Fishing'',
       row_categories = str ''[\"'' @ [92] @ str ''ud800\",\"'' @ [92] @ str ''ud801\",\"'' @ [128512]
                          @ str ''\",\"'' @ [65313] @ str ''\"]'',
       row_last_modified = None, row_scraped_at = str ''t1''\<rparr>]"
  by (simp add: store_sur_def page1_def db_defs Let_def str_def)

lemma store_sur_row_cats:
  "map row_cats (pages store_sur) = [[[55296], [55297], [55357, 56832], [65313]]]"
  by (simp add: store_sur_pages row_cats_def json_parse_def db_defs str_def is_json_ws_def
        parse_elements_numeral hex_val_def is_digit_def)





section \<open>The pattern of a category\<close>

subsection \<open>The argument without its special characters\<close>



subsection \<open>LIKE with a literal between two wildcards\<close>




subsection \<open>A quoted name inside a serialised list\<close>








subsection \<open>The rows selected\<close>








subsection \<open>The operands as TEXT\<close>







section \<open>Refreshing the categories\<close>

subsection \<open>Counting\<close>

lemma bump_keys: "map fst (bump m c) = (if c \<in> set (map fst m) then map fst m else map fst m @ [c])"
  by (induction m c rule: bump.induct) auto

lemma bump_distinct: "distinct (map fst m) \<Longrightarrow> distinct (map fst (bump m c))"
  by (simp add: bump_keys)

lemma bump_positive: "0 \<notin> snd ` set m \<Longrightarrow> 0 \<notin> snd ` set (bump m c)"
  by (induction m c rule: bump.induct) auto

lemma bump_map_of:
  "map_of (bump m c) = (map_of m)(c \<mapsto> (case map_of m c of None \<Rightarrow> 1 | Some v \<Rightarrow> v + 1))"
  by (induction m c rule: bump.induct) (auto simp: fun_eq_iff)

lemma foldl_bump_distinct: "distinct (map fst m) \<Longrightarrow> distinct (map fst (foldl bump m cs))"
  by (induction cs arbitrary: m) (simp_all add: bump_distinct)

lemma foldl_bump_positive: "0 \<notin> snd ` set m \<Longrightarrow> 0 \<notin> snd ` set (foldl bump m cs)"
proof (induction cs arbitrary: m)
  case Nil
  then show ?case by simp
next
  case (Cons c cs)
  from Cons.IH[OF bump_positive[OF Cons.prems, of c]] show ?case by simp
qed

lemma foldl_bump_map_of:
  "map_of (foldl bump m cs) k =
     (if k \<in> set cs then Some (count_list cs k + (case map_of m k of None \<Rightarrow> 0 | Some v \<Rightarrow> v))
      else map_of m k)"
  by (induction cs arbitrary: m) (auto simp: bump_map_of split: option.splits)

text \<open>The keys of the Map are the names in the order in which they first occur.\<close>

lemma find_not_in: "find Q xs = None \<Longrightarrow> c \<in> set xs \<Longrightarrow> \<not> Q c"
  by (induction xs) (auto split: if_splits)

lemma find_Some_mem: "find Q xs = Some x \<Longrightarrow> x \<in> set xs \<and> Q x"
  by (induction xs) (auto split: if_splits)

lemma find_mem_Some: "x \<in> set xs \<Longrightarrow> Q x \<Longrightarrow> \<exists>y. find Q xs = Some y"
  by (induction xs) auto

lemma find_app:
  "find Q (xs @ ys) = (case find Q xs of Some x \<Rightarrow> Some x | None \<Rightarrow> find Q ys)"
  by (induction xs) auto

lemma find_bump_keys:
  "find Q (map fst (bump m c))
     = (case find Q (map fst m) of Some x \<Rightarrow> Some x | None \<Rightarrow> if Q c then Some c else None)"
proof (cases "c \<in> set (map fst m)")
  case True
  then show ?thesis using find_not_in[of Q "map fst m" c]
    by (auto simp: bump_keys split: option.splits)
next
  case False
  then show ?thesis by (auto simp: bump_keys find_app split: option.splits)
qed

lemma find_foldl_bump_keys:
  "find Q (map fst (foldl bump m cs))
     = (case find Q (map fst m) of Some x \<Rightarrow> Some x | None \<Rightarrow> find Q cs)"
  by (induction cs arbitrary: m) (auto simp: find_bump_keys split: option.splits)

lemma count_categories_concat:
  "count_categories rows = foldl bump [] (concat (map row_cats rows))"
proof -
  have "foldl (\<lambda>counts r. foldl bump counts (row_cats r)) m rows
        = foldl bump m (concat (map row_cats rows))" for m
    by (induction rows arbitrary: m) simp_all
  then show ?thesis by (simp add: count_categories_def)
qed

lemma count_categories_distinct: "distinct (map fst (count_categories rows))"
  by (simp add: count_categories_concat foldl_bump_distinct)

lemma count_categories_positive: "0 \<notin> snd ` set (count_categories rows)"
  unfolding count_categories_concat by (rule foldl_bump_positive) simp

lemma count_categories_set:
  "set (count_categories rows)
   = {(n, count_list (concat (map row_cats rows)) n) | n. n \<in> set (concat (map row_cats rows))}"
proof -
  define cs where "cs = concat (map row_cats rows)"
  have d: "distinct (map fst (foldl bump [] cs))" by (simp add: foldl_bump_distinct)
  have "(n, v) \<in> set (foldl bump [] cs) \<longleftrightarrow> n \<in> set cs \<and> v = count_list cs n" for n v
    using map_of_eq_Some_iff[OF d, of n v] foldl_bump_map_of[of "[]" cs n]
    by (auto split: if_splits)
  then show ?thesis unfolding count_categories_concat cs_def[symmetric] by auto
qed

lemma count_categories_find:
  "find Q (map fst (count_categories rows)) = find Q (concat (map row_cats rows))"
  by (simp add: count_categories_concat find_foldl_bump_keys)

subsection \<open>The rows of the table\<close>

lemma insert_category_rows:
  "map name_count (categories_tbl (insert_category s nc))
     = insert_name (map name_count (categories_tbl s)) nc
   \<and> pages (insert_category s nc) = pages s"
proof -
  have "fst ` set (map name_count (categories_tbl s)) = set (map cat_name (categories_tbl s))"
    by (auto simp: name_count_def image_iff)
  then show ?thesis
    by (simp add: insert_category_def insert_name_def Let_def name_count_def del: set_map)
qed

lemma foldl_insert_category:
  "map name_count (categories_tbl (foldl insert_category s counts))
     = foldl insert_name (map name_count (categories_tbl s)) counts
   \<and> pages (foldl insert_category s counts) = pages s"
  by (induction counts arbitrary: s) (simp_all add: insert_category_rows)

lemma refresh_rows:
  "map name_count (categories_tbl (refreshCategories s))
     = foldl insert_name [] (count_categories (pages s))
   \<and> pages (refreshCategories s) = pages s"
  using foldl_insert_category[of "s\<lparr>categories_tbl := []\<rparr>" "count_categories (pages s)"]
  by (simp add: refreshCategories_def Let_def)

lemma insert_name_map_of:
  "map_of (insert_name acc nc) t
     = (case map_of acc t of Some k \<Rightarrow> Some k
        | None \<Rightarrow> if to_text (fst nc) = t then Some (snd nc) else None)"
proof (cases "to_text (fst nc) \<in> fst ` set acc")
  case True
  then have "map_of acc (to_text (fst nc)) \<noteq> None" by (simp add: map_of_eq_None_iff)
  with True show ?thesis by (auto simp: insert_name_def split: option.splits)
next
  case False
  then show ?thesis by (auto simp: insert_name_def map_add_def split: option.splits)
qed

lemma foldl_insert_name_map_of:
  "map_of (foldl insert_name acc counts) t
     = (case map_of acc t of Some k \<Rightarrow> Some k
        | None \<Rightarrow> map_option snd (find (\<lambda>nc. to_text (fst nc) = t) counts))"
  by (induction counts arbitrary: acc) (auto simp: insert_name_map_of split: option.splits)

lemma insert_name_distinct: "distinct (map fst acc) \<Longrightarrow> distinct (map fst (insert_name acc nc))"
  by (auto simp: insert_name_def)

lemma foldl_insert_name_distinct:
  "distinct (map fst acc) \<Longrightarrow> distinct (map fst (foldl insert_name acc counts))"
  by (induction counts arbitrary: acc) (simp_all add: insert_name_distinct)

lemma find_fst: "map_option fst (find (\<lambda>nc. Q (fst nc)) xs) = find Q (map fst xs)"
  by (induction xs) auto

text \<open>
  The table after a refresh: a name is stored with the count of the first name in the
  lists of the pages that is bound to the same TEXT.
\<close>

lemma refresh_table:
  "set (foldl insert_name [] (count_categories rows))
     = {(to_text n, count_list (concat (map row_cats rows)) n) | n.
          find (\<lambda>x. to_text x = to_text n) (concat (map row_cats rows)) = Some n}"
proof -
  define cs where "cs = concat (map row_cats rows)"
  define T where "T = foldl insert_name [] (count_categories rows)"
  have d: "distinct (map fst T)" unfolding T_def by (rule foldl_insert_name_distinct) simp
  have m: "map_of T t = map_option snd (find (\<lambda>nc. to_text (fst nc) = t) (count_categories rows))" for t
    unfolding T_def by (simp add: foldl_insert_name_map_of)
  have "(t, k) \<in> set T \<longleftrightarrow> (\<exists>n. find (\<lambda>x. to_text x = t) cs = Some n \<and> k = count_list cs n)" for t k
  proof
    assume "(t, k) \<in> set T"
    with d have "map_of T t = Some k" by simp
    with m obtain nc where f: "find (\<lambda>nc. to_text (fst nc) = t) (count_categories rows) = Some nc"
      and k: "snd nc = k" by auto
    from find_Some_mem[OF f] have "nc \<in> set (count_categories rows)" by simp
    then have c: "snd nc = count_list cs (fst nc)" by (auto simp: count_categories_set cs_def)
    from find_fst[of "\<lambda>x. to_text x = t" "count_categories rows"] f
    have "find (\<lambda>x. to_text x = t) cs = Some (fst nc)"
      by (simp add: count_categories_find cs_def)
    with c k show "\<exists>n. find (\<lambda>x. to_text x = t) cs = Some n \<and> k = count_list cs n" by auto
  next
    assume "\<exists>n. find (\<lambda>x. to_text x = t) cs = Some n \<and> k = count_list cs n"
    then obtain n where n: "find (\<lambda>x. to_text x = t) cs = Some n" and k: "k = count_list cs n" by blast
    from find_fst[of "\<lambda>x. to_text x = t" "count_categories rows"] n
    obtain nc where f: "find (\<lambda>nc. to_text (fst nc) = t) (count_categories rows) = Some nc"
      and e: "fst nc = n"
      by (auto simp: count_categories_find cs_def)
    from find_Some_mem[OF f] have "nc \<in> set (count_categories rows)" by simp
    then have "snd nc = count_list cs (fst nc)" by (auto simp: count_categories_set cs_def)
    with m[of t] f e k have "map_of T t = Some k" by simp
    then show "(t, k) \<in> set T" by (rule map_of_SomeD)
  qed
  then have mem: "(t, k) \<in> set T \<longleftrightarrow> (\<exists>n. find (\<lambda>x. to_text x = t) cs = Some n \<and> k = count_list cs n)"
    for t k .
  have "set T = {(to_text n, count_list cs n) | n. find (\<lambda>x. to_text x = to_text n) cs = Some n}"
  proof (intro set_eqI iffI)
    fix p assume "p \<in> set T"
    then have "(fst p, snd p) \<in> set T" by simp
    with mem obtain n where n: "find (\<lambda>x. to_text x = fst p) cs = Some n" "snd p = count_list cs n"
      by blast
    from find_Some_mem[OF n(1)] have e: "fst p = to_text n" by simp
    with n have "find (\<lambda>x. to_text x = to_text n) cs = Some n" "p = (to_text n, count_list cs n)"
      by (simp_all add: prod_eq_iff)
    then show "p \<in> {(to_text n, count_list cs n) | n. find (\<lambda>x. to_text x = to_text n) cs = Some n}"
      by blast
  next
    fix p assume "p \<in> {(to_text n, count_list cs n) | n. find (\<lambda>x. to_text x = to_text n) cs = Some n}"
    then obtain n where "p = (to_text n, count_list cs n)" "find (\<lambda>x. to_text x = to_text n) cs = Some n"
      by blast
    with mem[of "to_text n" "count_list cs n"] show "p \<in> set T" by blast
  qed
  then show ?thesis by (simp add: T_def cs_def)
qed

lemma refresh_table_positive: "0 \<notin> snd ` set (foldl insert_name [] (count_categories rows))"
proof
  assume "0 \<in> snd ` set (foldl insert_name [] (count_categories rows))"
  then obtain n where n: "find (\<lambda>x. to_text x = to_text n) (concat (map row_cats rows)) = Some n"
    and z: "count_list (concat (map row_cats rows)) n = 0"
    unfolding refresh_table by auto
  from find_Some_mem[OF n] have "n \<in> set (concat (map row_cats rows))" by blast
  with z show False by (simp add: count_list_0_iff)
qed

subsection \<open>What getCategories returns\<close>

lemma map_insort_key:
  "map f (insort_key (\<lambda>x. k (f x)) a xs) = insort_key k (f a) (map f xs)"
  by (induction xs) simp_all

lemma map_sort_key: "map f (sort_key (\<lambda>x. k (f x)) xs) = sort_key k (map f xs)"
  by (induction xs) (simp_all add: map_insort_key)

lemma getCategories_alt:
  "getCategories s = map (\<lambda>nc. (from_text (fst nc), snd nc))
       (sort_key fst (filter (\<lambda>nc. snd nc > 0) (map name_count (categories_tbl s))))"
proof -
  have "getCategories s
        = map (\<lambda>nc. (from_text (fst nc), snd nc)) (map name_count (sort_key (\<lambda>c. fst (name_count c))
            (filter (\<lambda>c. snd (name_count c) > 0) (categories_tbl s))))"
    by (simp add: getCategories_def name_count_def comp_def)
  also have "map name_count (sort_key (\<lambda>c. fst (name_count c))
            (filter (\<lambda>c. snd (name_count c) > 0) (categories_tbl s)))
      = sort_key fst (map name_count
            (filter (\<lambda>c. snd (name_count c) > 0) (categories_tbl s)))"
    by (rule map_sort_key)
  also have "map name_count (filter (\<lambda>c. snd (name_count c) > 0) (categories_tbl s))
             = filter (\<lambda>nc. snd nc > 0) (map name_count (categories_tbl s))"
    by (simp add: filter_map comp_def)
  finally show ?thesis .
qed

lemma getCategories_refresh:
  "getCategories (refreshCategories s)
     = map (\<lambda>nc. (from_text (fst nc), snd nc))
         (sort_key fst (foldl insert_name [] (count_categories (pages s))))"
proof -
  have "filter (\<lambda>nc. snd nc > 0) (foldl insert_name [] (count_categories (pages s)))
        = foldl insert_name [] (count_categories (pages s))"
    using refresh_table_positive[of "pages s"] by (auto simp: filter_id_conv image_iff)
  then show ?thesis by (simp add: getCategories_alt refresh_rows)
qed

lemma refresh_table_valid:
  "t \<in> fst ` set (foldl insert_name [] (count_categories rows)) \<Longrightarrow> valid_text t"
  unfolding refresh_table using to_text_valid by auto

lemma image_names:
  "(\<lambda>nc. (f (fst nc), snd nc)) ` {(g n, k n) | n. P n} = {(f (g n), k n) | n. P n}"
proof (intro set_eqI iffI)
  fix x assume "x \<in> (\<lambda>nc. (f (fst nc), snd nc)) ` {(g n, k n) | n. P n}"
  then obtain n where "P n" "x = (f (g n), k n)" by auto
  then show "x \<in> {(f (g n), k n) | n. P n}" by blast
next
  fix x assume "x \<in> {(f (g n), k n) | n. P n}"
  then obtain n where n: "P n" "x = (f (g n), k n)" by blast
  then have "(g n, k n) \<in> {(g n, k n) | n. P n}" by blast
  then have "(f (fst (g n, k n)), snd (g n, k n)) \<in> (\<lambda>nc. (f (fst nc), snd nc)) ` {(g n, k n) | n. P n}"
    by (rule imageI)
  with n(2) show "x \<in> (\<lambda>nc. (f (fst nc), snd nc)) ` {(g n, k n) | n. P n}" by simp
qed

lemma from_text_inj: "valid_text a \<Longrightarrow> valid_text b \<Longrightarrow> from_text a = from_text b \<Longrightarrow> a = b"
  using to_from_text[of a] to_from_text[of b] by metis

text \<open>
  C9. \<open>refreshCategories\<close> is idempotent on what \<open>getCategories\<close> returns: a second
  run without a change of the pages gives the same sequence as the first. In that
  sequence every name occurs once, the names are in the order of their stored TEXT, and
  no count is 0. The names are those that occur in the category lists of the pages, as
  they are read back from the TEXT column; a name comes with the number of its
  occurrences, that of the first name in the lists which is stored as the same TEXT
  (\<^verbatim>\<open>INSERT OR IGNORE\<close> drops the later ones). When every name is read back as it was
  written, the entries are exactly the names of the lists, each with the number of its
  occurrences.
\<close>

theorem refreshCategories_idempotent:
  "getCategories (refreshCategories (refreshCategories s)) = getCategories (refreshCategories s) \<and>
   distinct (map fst (getCategories (refreshCategories s))) \<and>
   sorted (map (\<lambda>nc. to_text (fst nc)) (getCategories (refreshCategories s))) \<and>
   0 \<notin> snd ` set (getCategories (refreshCategories s)) \<and>
   fst ` set (getCategories (refreshCategories s))
     = (\<lambda>n. from_text (to_text n)) ` set (concat (map row_cats (pages s))) \<and>
   set (getCategories (refreshCategories s))
     = {(from_text (to_text n), count_list (concat (map row_cats (pages s))) n) | n.
          find (\<lambda>x. to_text x = to_text n) (concat (map row_cats (pages s))) = Some n} \<and>
   ((\<forall>n\<in>set (concat (map row_cats (pages s))). from_text (to_text n) = n) \<longrightarrow>
      set (getCategories (refreshCategories s))
        = {(n, count_list (concat (map row_cats (pages s))) n) | n.
             n \<in> set (concat (map row_cats (pages s)))})"
proof -
  define cs where "cs = concat (map row_cats (pages s))"
  define T where "T = foldl insert_name [] (count_categories (pages s))"
  define R where "R = getCategories (refreshCategories s)"
  have R: "R = map (\<lambda>nc. (from_text (fst nc), snd nc)) (sort_key fst T)"
    by (simp add: R_def T_def getCategories_refresh)
  have d: "distinct (map fst T)" unfolding T_def by (rule foldl_insert_name_distinct) simp
  have v: "\<forall>t\<in>set (map fst T). valid_text t"
    using refresh_table_valid[of _ "pages s"] by (auto simp: T_def)
  have names: "map fst R = map from_text (sort (map fst T))"
  proof -
    have "map fst R = map from_text (map fst (sort_key fst T))" by (simp add: R comp_def)
    with map_sort_key[of fst "\<lambda>x. x" T] show ?thesis by simp
  qed
  have 1: "getCategories (refreshCategories (refreshCategories s)) = R"
    by (simp add: R_def getCategories_refresh refresh_rows)
  have "inj_on from_text (set (sort (map fst T)))"
    using v from_text_inj by (auto simp: inj_on_def)
  with d have 2: "distinct (map fst R)" by (simp add: names distinct_map)
  have "map to_text (map from_text (sort (map fst T))) = sort (map fst T)"
  proof -
    have "\<forall>t\<in>set (sort (map fst T)). to_text (from_text t) = t"
      using v to_from_text by simp
    then have "map (\<lambda>t. to_text (from_text t)) (sort (map fst T)) = sort (map fst T)"
      by (intro map_idI) blast
    then show ?thesis by (simp add: comp_def)
  qed
  moreover have "map (\<lambda>nc. to_text (fst nc)) R = map to_text (map fst R)"
    by (simp add: comp_def)
  ultimately have "map (\<lambda>nc. to_text (fst nc)) R = sort (map fst T)"
    by (simp only: names)
  then have 3: "sorted (map (\<lambda>nc. to_text (fst nc)) R)" by simp
  have sT: "set T = {(to_text n, count_list cs n) | n. find (\<lambda>x. to_text x = to_text n) cs = Some n}"
    unfolding T_def cs_def by (rule refresh_table)
  have "set R = (\<lambda>nc. (from_text (fst nc), snd nc)) ` set T" by (simp add: R)
  then have 6: "set R = {(from_text (to_text n), count_list cs n) | n.
                      find (\<lambda>x. to_text x = to_text n) cs = Some n}"
    unfolding sT
    using image_names[of from_text to_text "count_list cs"
            "\<lambda>n. find (\<lambda>x. to_text x = to_text n) cs = Some n"]
    by simp
  have 4: "0 \<notin> snd ` set R"
  proof
    assume "0 \<in> snd ` set R"
    with 6 obtain n where n: "find (\<lambda>x. to_text x = to_text n) cs = Some n" "count_list cs n = 0"
      by auto
    from find_Some_mem[OF n(1)] n(2) show False by (simp add: count_list_0_iff)
  qed
  have 5: "fst ` set R = (\<lambda>n. from_text (to_text n)) ` set cs"
  proof (intro set_eqI iffI)
    fix x assume "x \<in> fst ` set R"
    with 6 obtain n where n: "find (\<lambda>x. to_text x = to_text n) cs = Some n" "x = from_text (to_text n)"
      by auto
    from find_Some_mem[OF n(1)] n(2) show "x \<in> (\<lambda>n. from_text (to_text n)) ` set cs"
      by blast
  next
    fix x assume "x \<in> (\<lambda>n. from_text (to_text n)) ` set cs"
    then obtain n where n: "n \<in> set cs" "x = from_text (to_text n)" by auto
    from find_mem_Some[of n cs "\<lambda>x. to_text x = to_text n"] n(1)
    obtain m where m: "find (\<lambda>x. to_text x = to_text n) cs = Some m" by auto
    from find_Some_mem[OF m] have e: "to_text m = to_text n" by simp
    with m have "find (\<lambda>x. to_text x = to_text m) cs = Some m" by simp
    then have "(from_text (to_text m), count_list cs m) \<in> set R" unfolding 6 by blast
    with e n(2) show "x \<in> fst ` set R" by (metis fst_conv image_eqI)
  qed
  have 7: "set R = {(n, count_list cs n) | n. n \<in> set cs}" if h: "\<forall>n\<in>set cs. from_text (to_text n) = n"
  proof -
    have "find (\<lambda>x. to_text x = to_text n) cs = Some n \<longleftrightarrow> n \<in> set cs" for n
    proof
      assume "find (\<lambda>x. to_text x = to_text n) cs = Some n"
      from find_Some_mem[OF this] show "n \<in> set cs" by simp
    next
      assume n: "n \<in> set cs"
      from find_mem_Some[of n cs "\<lambda>x. to_text x = to_text n"] n
      obtain m where m: "find (\<lambda>x. to_text x = to_text n) cs = Some m" by auto
      from find_Some_mem[OF m] have "to_text m = to_text n" "m \<in> set cs" by simp_all
      with h n have "m = n" by metis
      with m show "find (\<lambda>x. to_text x = to_text n) cs = Some n" by simp
    qed
    then have "set R = {(from_text (to_text n), count_list cs n) | n. n \<in> set cs}"
      using 6 by simp
    also have "\<dots> = {(n, count_list cs n) | n. n \<in> set cs}"
    proof (intro set_eqI iffI)
      fix x assume "x \<in> {(from_text (to_text n), count_list cs n) | n. n \<in> set cs}"
      then obtain n where "n \<in> set cs" "x = (from_text (to_text n), count_list cs n)" by blast
      with h have "n \<in> set cs" "x = (n, count_list cs n)" by simp_all
      then show "x \<in> {(n, count_list cs n) | n. n \<in> set cs}" by blast
    next
      fix x assume "x \<in> {(n, count_list cs n) | n. n \<in> set cs}"
      then obtain n where "n \<in> set cs" "x = (n, count_list cs n)" by blast
      with h have "n \<in> set cs" "x = (from_text (to_text n), count_list cs n)" by simp_all
      then show "x \<in> {(from_text (to_text n), count_list cs n) | n. n \<in> set cs}" by blast
    qed
    finally show ?thesis .
  qed
  from 1 2 3 4 5 6 7 show ?thesis unfolding R_def cs_def by blast
qed

theorem refreshCategories_idempotent_witness:
  "list_all (\<lambda>n. from_text (to_text n) = n) (concat (map row_cats (pages store3))) \<and>
   getCategories (refreshCategories store3)
     = [(str ''Activities'', 2), (str ''Food'', 1), (str ''Items'', 1), (str ''Tools'', 1)] \<and>
   getCategories (refreshCategories (refreshCategories store3))
     = [(str ''Activities'', 2), (str ''Food'', 1), (str ''Items'', 1), (str ''Tools'', 1)] \<and>
   set (getCategories (refreshCategories store3))
     = {(n, count_list (concat (map row_cats (pages store3))) n) | n.
          n \<in> set (concat (map row_cats (pages store3)))} \<and>
   map cat_id (categories_tbl (refreshCategories store3)) = [1, 2, 3, 4] \<and>
   map cat_id (categories_tbl (refreshCategories (refreshCategories store3))) = [5, 6, 7, 8] \<and>
   getCategories (refreshCategories store_sur)
     = [([65313], 1), ([65533], 1), ([55357, 56832], 1)] \<and>
   getCategories (refreshCategories (refreshCategories store_sur))
     = [([65313], 1), ([65533], 1), ([55357, 56832], 1)]"
proof -
  note t = refreshCategories_idempotent[of store3]
  note u = refreshCategories_idempotent[of store_sur]
  have cs: "concat (map row_cats (pages store3))
            = [str ''Activities'', str ''Activities'', str ''Food'', str ''Items'', str ''Tools'']"
    by (simp add: store3_row_cats)
  have h: "list_all (\<lambda>n. from_text (to_text n) = n) (concat (map row_cats (pages store3)))"
    unfolding cs by (simp add: db_defs str_def)
  then have h': "\<forall>n\<in>set (concat (map row_cats (pages store3))). from_text (to_text n) = n"
    by (simp only: list_all_iff)
  have c: "count_categories (pages store3)
           = [(str ''Activities'', 2), (str ''Food'', 1), (str ''Items'', 1), (str ''Tools'', 1)]"
    unfolding count_categories_concat cs by (simp add: str_def)
  have g: "getCategories (refreshCategories store3)
     = [(str ''Activities'', 2), (str ''Food'', 1), (str ''Items'', 1), (str ''Tools'', 1)]"
    unfolding getCategories_refresh c by (simp add: insert_name_def db_defs str_def)
  from t have i: "getCategories (refreshCategories (refreshCategories store3))
                  = getCategories (refreshCategories store3)"
    by (rule conjunct1)
  from t h' have e: "set (getCategories (refreshCategories store3))
     = {(n, count_list (concat (map row_cats (pages store3))) n) | n.
          n \<in> set (concat (map row_cats (pages store3)))}"
    by blast
  have q: "categories_seq store3 = 0"
    by (simp add: store3_def page1_def page2_def page3_def db_defs Let_def)
  have r1: "categories_tbl (refreshCategories store3)
      = [\<lparr>cat_id = 1, cat_name = str ''Activities'', cat_page_count = 2\<rparr>,
         \<lparr>cat_id = 2, cat_name = str ''Food'', cat_page_count = 1\<rparr>,
         \<lparr>cat_id = 3, cat_name = str ''Items'', cat_page_count = 1\<rparr>,
         \<lparr>cat_id = 4, cat_name = str ''Tools'', cat_page_count = 1\<rparr>]
      \<and> categories_seq (refreshCategories store3) = 4"
    by (simp add: refreshCategories_def c q insert_category_def next_rowid_def Let_def str_def
          is_high_def is_low_def lone_def)
  have p: "pages (refreshCategories store3) = pages store3"
    by (simp add: refresh_rows)
  have r2: "map cat_id (categories_tbl (refreshCategories (refreshCategories store3))) = [5, 6, 7, 8]"
    by (simp add: refreshCategories_def[of "refreshCategories store3"] p c r1 insert_category_def
          next_rowid_def Let_def str_def is_high_def is_low_def lone_def)
  have cu: "count_categories (pages store_sur)
            = [([55296], 1), ([55297], 1), ([55357, 56832], 1), ([65313], 1)]"
    unfolding count_categories_concat using store_sur_row_cats by simp
  have gu: "getCategories (refreshCategories store_sur)
     = [([65313], 1), ([65533], 1), ([55357, 56832], 1)]"
    unfolding getCategories_refresh cu by (simp add: insert_name_def db_defs)
  from u have iu: "getCategories (refreshCategories (refreshCategories store_sur))
                  = getCategories (refreshCategories store_sur)"
    by (rule conjunct1)
  from h g i e r1 r2 gu iu show ?thesis by simp
qed

section \<open>The category argument\<close>





section \<open>Pages of a category\<close>







end
